theory Spec2Isabelle
  imports Complex_Main "HOL-Library.Word"
begin

unbundle bit_operations_syntax

section \<open>JavaScript values\<close>

text \<open>
  A JavaScript \<open>number\<close> is a finite value or one of \<open>NaN\<close>, \<open>Infinity\<close>, \<open>-Infinity\<close>.
  The routing code only asks \<open>Number.isFinite\<close> of the non-finite ones, so they are one
  constructor. Finite values are mathematical reals: every number the routing engine
  computes with is an integer of small magnitude or such an integer divided by 10, 20 or
  100, where IEEE double rounding does not change a floor or a rounding to the nearest
  integer.
\<close>

datatype number = Num real | NonFinite

text \<open>\<open>Math.round\<close> rounds to the nearest integer, a half towards plus infinity.\<close>

definition Math_round :: "real \<Rightarrow> int" where
  "Math_round x = \<lfloor>x + 1 / 2\<rfloor>"

definition Math_floor :: "real \<Rightarrow> int" where
  "Math_floor x = \<lfloor>x\<rfloor>"

text \<open>
  Strings are lists of 8-bit characters, read as the code units U+0000 to U+00FF.
  The white space of \<open>String.prototype.trim\<close> and of the regular expression class
  \<open>\s\<close> in that range is TAB, LF, VT, FF, CR, SPACE and NO-BREAK SPACE.
\<close>

definition isWhitespace :: "char \<Rightarrow> bool" where
  "isWhitespace c = (of_char c \<in> {9, 10, 11, 12, 13, 32, 160 :: nat})"

definition trim :: "string \<Rightarrow> string" where
  "trim s = rev (dropWhile isWhitespace (rev (dropWhile isWhitespace s)))"

definition toLowerCase_char :: "char \<Rightarrow> char" where
  "toLowerCase_char c =
     (let n = (of_char c :: nat)
      in if (65 \<le> n \<and> n \<le> 90) \<or> (192 \<le> n \<and> n \<le> 222 \<and> n \<noteq> 215)
         then char_of (n + 32) else c)"

definition toLowerCase :: "string \<Rightarrow> string" where
  "toLowerCase s = map toLowerCase_char s"

text \<open>\<open>s.split(/\s+/).filter(Boolean)\<close>: the maximal runs of characters that are not white space.\<close>

fun splitWords :: "string \<Rightarrow> string \<Rightarrow> string list" where
  "splitWords acc [] = (if acc = [] then [] else [rev acc])"
| "splitWords acc (c # cs) =
     (if isWhitespace c
      then (if acc = [] then splitWords [] cs else rev acc # splitWords [] cs)
      else splitWords (c # acc) cs)"

text \<open>\<open>countMatches(s, /c/g)\<close> for a pattern that is one literal character.\<close>

definition countChar :: "string \<Rightarrow> char \<Rightarrow> nat" where
  "countChar s c = length (filter (\<lambda>d. d = c) s)"

definition startsWith :: "string \<Rightarrow> string \<Rightarrow> bool" where
  "startsWith s p = (take (length p) s = p)"

section \<open>Routing decision engine (src/app/api/conversation/route.ts)\<close>

datatype RoutingTier = Light | Tooling | Heavy

record CarbonRoutingSettings =
  routingSensitivity :: number
  historyCompression :: number

record RoutingToolSignals =
  webSearchEnabled :: bool
  deepSearchEnabled :: bool
  attachmentCount :: int

record RoutingDecision =
  tier :: RoutingTier
  model :: string
  heavyModel :: string
  maxTokens :: int
  historyWindowMessages :: int
  historySummaryMaxChars :: int
  availableModels :: "string list"
  allowEscalation :: bool

record TierModels =
  tm_light :: string
  tm_tooling :: string
  tm_heavy :: string

text \<open>
  The module constants read from \<open>process.env\<close> when the module is loaded. They are a
  parameter of the model; the source's defaults are \<open>default_config\<close>.
\<close>

record TierConfig =
  LIGHT_TIER_MODEL_DEFAULT :: string
  TOOLING_TIER_MODEL_DEFAULT :: string
  HEAVY_TIER_MODEL_DEFAULT :: string
  LIGHT_TIER_MAX_TOKENS :: number
  TOOLING_TIER_MAX_TOKENS :: number
  HEAVY_TIER_MAX_TOKENS :: number

definition DEFAULT_MODEL :: string where
  "DEFAULT_MODEL = ''anthropic/claude-opus-4-5''"

definition default_config :: TierConfig where
  "default_config =
     \<lparr>LIGHT_TIER_MODEL_DEFAULT = ''openai/gpt-5-nano'',
      TOOLING_TIER_MODEL_DEFAULT = ''openai/gpt-5-mini'',
      HEAVY_TIER_MODEL_DEFAULT = DEFAULT_MODEL,
      LIGHT_TIER_MAX_TOKENS = Num 900,
      TOOLING_TIER_MAX_TOKENS = Num 1400,
      HEAVY_TIER_MAX_TOKENS = Num 2600\<rparr>"

definition CHAT_MODELS :: "string list" where
  "CHAT_MODELS =
     [''anthropic/claude-opus-4-5'', ''anthropic/claude-sonnet-4-5'',
      ''anthropic/claude-haiku-4-5'', ''openai/gpt-5'', ''openai/gpt-5-mini'',
      ''openai/gpt-5-nano'', ''google/gemini-2.5-pro'', ''google/gemini-2.5-flash'',
      ''google/gemini-2.5-flash-lite'']"

definition MIN_HISTORY_WINDOW_MESSAGES :: int where
  "MIN_HISTORY_WINDOW_MESSAGES = 6"

definition MAX_HISTORY_WINDOW_MESSAGES :: int where
  "MAX_HISTORY_WINDOW_MESSAGES = 24"

definition MIN_HISTORY_SUMMARY_CHARS :: int where
  "MIN_HISTORY_SUMMARY_CHARS = 900"

definition MAX_HISTORY_SUMMARY_CHARS :: int where
  "MAX_HISTORY_SUMMARY_CHARS = 4200"

fun clampInt :: "number \<Rightarrow> int \<Rightarrow> int \<Rightarrow> int" where
  "clampInt NonFinite mn mx = mn"
| "clampInt (Num v) mn mx =
     (let rounded = Math_round v
      in if rounded < mn then mn else if rounded > mx then mx else rounded)"

datatype Provider = Anthropic | Openai | Google | Other

definition getProviderFromModelName :: "string \<Rightarrow> Provider" where
  "getProviderFromModelName modelName =
     (if startsWith modelName ''anthropic/'' then Anthropic
      else if startsWith modelName ''openai/'' then Openai
      else if startsWith modelName ''google/'' then Google
      else Other)"

definition pickTierModels :: "TierConfig \<Rightarrow> string \<Rightarrow> TierModels" where
  "pickTierModels cfg selectedModel =
     (case getProviderFromModelName selectedModel of
        Anthropic \<Rightarrow>
          \<lparr>tm_light = ''anthropic/claude-haiku-4-5'',
           tm_tooling = ''anthropic/claude-sonnet-4-5'',
           tm_heavy = (if selectedModel \<in> set CHAT_MODELS then selectedModel
                       else ''anthropic/claude-opus-4-5'')\<rparr>
      | Google \<Rightarrow>
          \<lparr>tm_light = ''google/gemini-2.5-flash-lite'',
           tm_tooling = ''google/gemini-2.5-flash'',
           tm_heavy = (if selectedModel \<in> set CHAT_MODELS then selectedModel
                       else ''google/gemini-2.5-pro'')\<rparr>
      | Openai \<Rightarrow>
          \<lparr>tm_light = ''openai/gpt-5-nano'',
           tm_tooling = ''openai/gpt-5-mini'',
           tm_heavy = (if selectedModel \<in> set CHAT_MODELS then selectedModel
                       else ''openai/gpt-5'')\<rparr>
      | Other \<Rightarrow>
          \<lparr>tm_light = LIGHT_TIER_MODEL_DEFAULT cfg,
           tm_tooling = TOOLING_TIER_MODEL_DEFAULT cfg,
           tm_heavy = (if selectedModel \<in> set CHAT_MODELS then selectedModel
                       else HEAVY_TIER_MODEL_DEFAULT cfg)\<rparr>)"

definition scorePromptLength :: "string \<Rightarrow> nat" where
  "scorePromptLength prompt =
     (let normalized = toLowerCase (trim prompt)
      in if normalized = [] then 0
         else
           (let charCount = length normalized;
                wordCount = length (splitWords [] normalized);
                newlineCount = countChar normalized (CHR 0x0A);
                questionCount = countChar normalized (CHR ''?'')
            in (if charCount > 180 then 1 else 0)
             + (if charCount > 420 then 1 else 0)
             + (if charCount > 760 then 1 else 0)
             + (if charCount > 1300 then 1 else 0)
             + (if wordCount > 40 then 1 else 0)
             + (if wordCount > 90 then 1 else 0)
             + (if wordCount > 170 then 1 else 0)
             + (if newlineCount \<ge> 3 then 1 else 0)
             + (if newlineCount \<ge> 4 then 1 else 0)
             + (if newlineCount \<ge> 9 then 1 else 0)
             + (if questionCount \<ge> 2 then 1 else 0)))"

text \<open>
  \<open>scoreInstructionComplexity\<close> counts the matches of six regular expressions (word
  boundaries, alternations, multi-line anchors). The regular expression engine is the
  platform's, not the repository's: \<open>countMatches(input, regex)\<close> for these six
  expressions is the parameter \<open>cm\<close>, a function from the input and the expression to the
  number of matches.
\<close>

datatype InstructionPattern =
  ActionVerbs | Constraints | ReasoningHints | StepList | CodeSignals | Conjunctions

type_synonym countMatches = "string \<Rightarrow> InstructionPattern \<Rightarrow> nat"

definition scoreInstructionComplexity :: "countMatches \<Rightarrow> string \<Rightarrow> nat" where
  "scoreInstructionComplexity cm prompt =
     (let normalized = toLowerCase (trim prompt)
      in if normalized = [] then 0
         else
           (let actionVerbCount = cm normalized ActionVerbs;
                constraintCount = cm normalized Constraints;
                reasoningHintCount = cm normalized ReasoningHints;
                stepListCount = cm prompt StepList;
                codeSignalCount = cm prompt CodeSignals;
                conjunctionCount = cm normalized Conjunctions
            in (if actionVerbCount \<ge> 2 then 1 else 0)
             + (if actionVerbCount \<ge> 5 then 1 else 0)
             + (if constraintCount \<ge> 2 then 1 else 0)
             + (if constraintCount \<ge> 5 then 1 else 0)
             + (if reasoningHintCount \<ge> 1 then 1 else 0)
             + (if reasoningHintCount \<ge> 3 then 1 else 0)
             + (if stepListCount \<ge> 2 then 1 else 0)
             + (if stepListCount \<ge> 5 then 1 else 0)
             + (if codeSignalCount \<ge> 2 then 1 else 0)
             + (if codeSignalCount \<ge> 6 then 1 else 0)
             + (if conjunctionCount \<ge> 8 then 1 else 0)))"

definition scoreToolComplexity :: "RoutingToolSignals \<Rightarrow> nat" where
  "scoreToolComplexity tools =
       (if webSearchEnabled tools then 2 else 0)
     + (if deepSearchEnabled tools then 3 else 0)
     + (if webSearchEnabled tools \<and> deepSearchEnabled tools then 1 else 0)
     + (if attachmentCount tools > 0 then 1 else 0)
     + (if attachmentCount tools > 1 then 1 else 0)
     + (if attachmentCount tools > 3 then 1 else 0)"

definition scorePromptComplexity :: "countMatches \<Rightarrow> string \<Rightarrow> RoutingToolSignals \<Rightarrow> nat" where
  "scorePromptComplexity cm prompt tools =
     (if trim prompt = [] then 0
      else scorePromptLength prompt + scoreInstructionComplexity cm prompt
           + scoreToolComplexity tools)"

record HistoryParams =
  hp_historyWindowMessages :: int
  hp_historySummaryMaxChars :: int

definition computeHistoryCompression :: "RoutingTier \<Rightarrow> number \<Rightarrow> HistoryParams" where
  "computeHistoryCompression t hc =
     (let compression = clampInt hc 0 100;
          baseWindow = MAX_HISTORY_WINDOW_MESSAGES -
            Math_round (of_int ((MAX_HISTORY_WINDOW_MESSAGES - MIN_HISTORY_WINDOW_MESSAGES)
                                 * compression) / 100);
          baseSummaryChars = MAX_HISTORY_SUMMARY_CHARS -
            Math_round (of_int ((MAX_HISTORY_SUMMARY_CHARS - MIN_HISTORY_SUMMARY_CHARS)
                                 * compression) / 100)
      in if t = Light then
           \<lparr>hp_historyWindowMessages =
              clampInt (Num (of_int (baseWindow - 2)))
                MIN_HISTORY_WINDOW_MESSAGES MAX_HISTORY_WINDOW_MESSAGES,
            hp_historySummaryMaxChars =
              clampInt (Num (of_int (baseSummaryChars - 350)))
                MIN_HISTORY_SUMMARY_CHARS MAX_HISTORY_SUMMARY_CHARS\<rparr>
         else if t = Heavy then
           \<lparr>hp_historyWindowMessages =
              clampInt (Num (of_int (baseWindow + 3)))
                MIN_HISTORY_WINDOW_MESSAGES MAX_HISTORY_WINDOW_MESSAGES,
            hp_historySummaryMaxChars =
              clampInt (Num (of_int (baseSummaryChars + 550)))
                MIN_HISTORY_SUMMARY_CHARS MAX_HISTORY_SUMMARY_CHARS\<rparr>
         else
           \<lparr>hp_historyWindowMessages =
              clampInt (Num (of_int baseWindow))
                MIN_HISTORY_WINDOW_MESSAGES MAX_HISTORY_WINDOW_MESSAGES,
            hp_historySummaryMaxChars =
              clampInt (Num (of_int baseSummaryChars))
                MIN_HISTORY_SUMMARY_CHARS MAX_HISTORY_SUMMARY_CHARS\<rparr>)"

text \<open>\<open>Array.from(new Set(xs))\<close>: the first occurrence of every element, in order.\<close>

fun uniqueInOrder :: "'a list \<Rightarrow> 'a list \<Rightarrow> 'a list" where
  "uniqueInOrder seen [] = []"
| "uniqueInOrder seen (x # xs) =
     (if x \<in> set seen then uniqueInOrder seen xs else x # uniqueInOrder (x # seen) xs)"

record RoutingParams =
  latestUserMessage :: string
  selectedModel :: string
  tools :: RoutingToolSignals
  settings :: CarbonRoutingSettings

definition buildRoutingDecision :: "TierConfig \<Rightarrow> countMatches \<Rightarrow> RoutingParams \<Rightarrow> RoutingDecision" where
  "buildRoutingDecision cfg cm params =
     (let tierModels = pickTierModels cfg (selectedModel params);
          complexity = int (scorePromptComplexity cm (latestUserMessage params) (tools params));
          sensitivity = clampInt (routingSensitivity (settings params)) 0 100;
          toolingThreshold =
            clampInt (Num (of_int (9 - Math_floor (of_int sensitivity / 20)))) 4 9;
          heavyThreshold =
            clampInt (Num (of_int (17 - Math_floor (of_int sensitivity / 10)))) 7 17;
          hasAnyToolingSignals =
            (webSearchEnabled (tools params) \<or> deepSearchEnabled (tools params)
             \<or> attachmentCount (tools params) > 0);
          heavyBiasForDeepSearch = (if deepSearchEnabled (tools params) then 2 else 0);
          t = (if complexity \<ge> heavyThreshold - heavyBiasForDeepSearch then Heavy
               else if hasAnyToolingSignals \<or> complexity \<ge> toolingThreshold then Tooling
               else Light);
          m = (if t = Tooling then tm_tooling tierModels
               else if t = Heavy then tm_heavy tierModels
               else tm_light tierModels);
          hm = tm_heavy tierModels;
          escalate = (t = Light \<and> hm \<noteq> m);
          mt = (if t = Tooling then clampInt (TOOLING_TIER_MAX_TOKENS cfg) 400 8000
                else if t = Heavy then clampInt (HEAVY_TIER_MAX_TOKENS cfg) 400 8000
                else clampInt (LIGHT_TIER_MAX_TOKENS cfg) 400 8000);
          history = computeHistoryCompression t (historyCompression (settings params));
          available =
            filter (\<lambda>modelName. modelName \<in> set CHAT_MODELS)
              (uniqueInOrder [] [tm_light tierModels, tm_tooling tierModels, tm_heavy tierModels])
      in \<lparr>tier = t,
          model = m,
          heavyModel = hm,
          maxTokens = mt,
          historyWindowMessages = hp_historyWindowMessages history,
          historySummaryMaxChars = hp_historySummaryMaxChars history,
          availableModels = available,
          allowEscalation = escalate\<rparr>)"

subsection \<open>The routing policy as the specification words it\<close>

definition spec_clamp :: "int \<Rightarrow> int \<Rightarrow> int \<Rightarrow> int" where
  "spec_clamp x lo hi = max lo (min hi x)"

definition spec_toolingThreshold :: "int \<Rightarrow> int" where
  "spec_toolingThreshold s = spec_clamp (9 - \<lfloor>real_of_int s / 20\<rfloor>) 4 9"

definition spec_heavyThreshold :: "int \<Rightarrow> int" where
  "spec_heavyThreshold s = spec_clamp (17 - \<lfloor>real_of_int s / 10\<rfloor>) 7 17"

definition spec_tier :: "int \<Rightarrow> RoutingToolSignals \<Rightarrow> int \<Rightarrow> RoutingTier" where
  "spec_tier complexity sg s =
     (if complexity \<ge> spec_heavyThreshold s - (if deepSearchEnabled sg then 2 else 0) then Heavy
      else if webSearchEnabled sg \<or> deepSearchEnabled sg \<or> attachmentCount sg > 0
              \<or> complexity \<ge> spec_toolingThreshold s then Tooling
      else Light)"

definition spec_baseWindow :: "int \<Rightarrow> int" where
  "spec_baseWindow c = 24 - round (18 * real_of_int c / 100)"

definition spec_baseSummary :: "int \<Rightarrow> int" where
  "spec_baseSummary c = 4200 - round (3300 * real_of_int c / 100)"

definition spec_history :: "RoutingTier \<Rightarrow> int \<Rightarrow> HistoryParams" where
  "spec_history t c =
     (case t of
        Light \<Rightarrow>
          \<lparr>hp_historyWindowMessages = spec_clamp (spec_baseWindow c - 2) 6 24,
           hp_historySummaryMaxChars = spec_clamp (spec_baseSummary c - 350) 900 4200\<rparr>
      | Heavy \<Rightarrow>
          \<lparr>hp_historyWindowMessages = spec_clamp (spec_baseWindow c + 3) 6 24,
           hp_historySummaryMaxChars = spec_clamp (spec_baseSummary c + 550) 900 4200\<rparr>
      | Tooling \<Rightarrow>
          \<lparr>hp_historyWindowMessages = spec_clamp (spec_baseWindow c) 6 24,
           hp_historySummaryMaxChars = spec_clamp (spec_baseSummary c) 900 4200\<rparr>)"

subsection \<open>Concrete prompts of the deep-search scenario\<close>

text \<open>
  Two prompts of 1500 characters with five line feeds and two question marks. In
  \<open>scenario_prompt\<close> the line feeds stand inside the text; in \<open>untrimmed_prompt\<close> they
  end it, where \<open>trim\<close> removes them before anything is counted.
\<close>

definition scenario_prompt :: string where
  "scenario_prompt = replicate 1492 (CHR ''a'') @ replicate 5 (CHR 0x0A) @ ''a??''"

definition untrimmed_prompt :: string where
  "untrimmed_prompt = replicate 1493 (CHR ''a'') @ ''??'' @ replicate 5 (CHR 0x0A)"


section \<open>Attachment signatures (src/app/api/conversation/route.ts)\<close>

text \<open>
  A \<open>Buffer\<close> is a list of bytes. The strings that \<open>Buffer.prototype.toString\<close> returns
  are lists of UTF-16 code units (numbers), since a decoded byte sequence can hold code
  units above U+00FF; \<open>str\<close> turns a literal of the source into that form.

  \<open>toString("utf8")\<close> is the platform's UTF-8 decoder: a malformed sequence becomes
  U+FFFD for each maximal ill-formed part, a code point above U+FFFF a surrogate pair.
  \<open>utf8_decode\<close> is that decoder as a state machine over the bytes: \<open>Pending cp n lo hi\<close>
  holds the code point read so far, the number of continuation bytes still needed and the
  range the next byte must be in.

  \<open>toString("ascii")\<close> is documented by Node.js to unset the highest bit of each byte
  and decode the result as Latin-1.
\<close>

type_synonym byte = "8 word"

type_synonym Buffer = "byte list"

type_synonym utf16 = "nat list"

definition str :: "string \<Rightarrow> utf16" where
  "str s = map of_char s"

definition subarray :: "Buffer \<Rightarrow> nat \<Rightarrow> nat \<Rightarrow> Buffer" where
  "subarray buf start fin = take (fin - start) (drop start buf)"

datatype utf8_state = Start | Pending nat nat nat nat

definition utf8_units :: "nat \<Rightarrow> utf16" where
  "utf8_units cp =
     (if cp < 0x10000 then [cp]
      else [0xD800 + (cp - 0x10000) div 0x400, 0xDC00 + (cp - 0x10000) mod 0x400])"

definition utf8_lead :: "nat \<Rightarrow> utf16 \<times> utf8_state" where
  "utf8_lead b =
     (if b \<le> 0x7F then ([b], Start)
      else if 0xC2 \<le> b \<and> b \<le> 0xDF then ([], Pending (b mod 32) 1 0x80 0xBF)
      else if 0xE0 \<le> b \<and> b \<le> 0xEF then
        ([], Pending (b mod 16) 2 (if b = 0xE0 then 0xA0 else 0x80) (if b = 0xED then 0x9F else 0xBF))
      else if 0xF0 \<le> b \<and> b \<le> 0xF4 then
        ([], Pending (b mod 8) 3 (if b = 0xF0 then 0x90 else 0x80) (if b = 0xF4 then 0x8F else 0xBF))
      else ([0xFFFD], Start))"

fun utf8_decode :: "utf8_state \<Rightarrow> nat list \<Rightarrow> utf16" where
  "utf8_decode Start [] = []"
| "utf8_decode (Pending cp n lo hi) [] = [0xFFFD]"
| "utf8_decode Start (b # bs) = (case utf8_lead b of (out, st) \<Rightarrow> out @ utf8_decode st bs)"
| "utf8_decode (Pending cp n lo hi) (b # bs) =
     (if b < lo \<or> hi < b
      then (case utf8_lead b of (out, st) \<Rightarrow> 0xFFFD # out @ utf8_decode st bs)
      else (let cp' = cp * 64 + b mod 64
            in if n \<le> 1 then utf8_units cp' @ utf8_decode Start bs
               else utf8_decode (Pending cp' (n - 1) 0x80 0xBF) bs))"

definition toString_utf8 :: "Buffer \<Rightarrow> utf16" where
  "toString_utf8 buf = utf8_decode Start (map unat buf)"

definition toString_ascii :: "Buffer \<Rightarrow> utf16" where
  "toString_ascii buf = map (\<lambda>b. unat (b AND 0x7F)) buf"

definition detectMimeFromBinary :: "Buffer \<Rightarrow> string option" where
  "detectMimeFromBinary decoded =
     (if length decoded \<ge> 5 \<and> toString_utf8 (subarray decoded 0 5) = str ''%PDF-''
      then Some ''application/pdf''
      else if length decoded \<ge> 8 \<and> decoded ! 0 = 0x89 \<and> decoded ! 1 = 0x50
              \<and> decoded ! 2 = 0x4e \<and> decoded ! 3 = 0x47 \<and> decoded ! 4 = 0x0d
              \<and> decoded ! 5 = 0x0a \<and> decoded ! 6 = 0x1a \<and> decoded ! 7 = 0x0a
      then Some ''image/png''
      else if length decoded \<ge> 3 \<and> decoded ! 0 = 0xff \<and> decoded ! 1 = 0xd8
              \<and> decoded ! 2 = 0xff
      then Some ''image/jpeg''
      else if length decoded \<ge> 12 \<and> toString_ascii (subarray decoded 0 4) = str ''RIFF''
              \<and> toString_ascii (subarray decoded 8 12) = str ''WEBP''
      then Some ''image/webp''
      else None)"

text \<open>The signatures as byte sequences, and the buffer that shows the masked comparison.\<close>

definition PDF_SIGNATURE :: Buffer where "PDF_SIGNATURE = [0x25, 0x50, 0x44, 0x46, 0x2D]"

definition PNG_SIGNATURE :: Buffer where "PNG_SIGNATURE = [0x89, 0x50, 0x4E, 0x47, 0x0D, 0x0A, 0x1A, 0x0A]"

definition JPEG_SIGNATURE :: Buffer where "JPEG_SIGNATURE = [0xFF, 0xD8, 0xFF]"

definition RIFF_TAG :: Buffer where "RIFF_TAG = [0x52, 0x49, 0x46, 0x46]"

definition WEBP_TAG :: Buffer where "WEBP_TAG = [0x57, 0x45, 0x42, 0x50]"

definition high_bit_riff :: Buffer where
  "high_bit_riff = [0xD2, 0x49, 0x46, 0x46, 0, 0, 0, 0, 0x57, 0x45, 0x42, 0x50]"

definition clearHighBits :: "Buffer \<Rightarrow> Buffer" where
  "clearHighBits buf = map (\<lambda>b. b AND 0x7F) buf"

section \<open>Conversation store (src/unnamed/part_003, the module the chat route imports)\<close>

subsection \<open>Text helpers\<close>

definition isIdChar :: "char \<Rightarrow> bool" where
  "isIdChar c =
     (let n = (of_char c :: nat)
      in (97 \<le> n \<and> n \<le> 122) \<or> (65 \<le> n \<and> n \<le> 90) \<or> (48 \<le> n \<and> n \<le> 57)
         \<or> c = CHR ''_'' \<or> c = CHR ''-'')"

definition isDigit :: "char \<Rightarrow> bool" where
  "isDigit c = (48 \<le> (of_char c :: nat) \<and> (of_char c :: nat) \<le> 57)"

text \<open>The mathematical integer that a string of decimal digits denotes.\<close>

definition mathInt :: "string \<Rightarrow> nat" where
  "mathInt ds = foldl (\<lambda>acc c. 10 * acc + (of_char c - 48)) 0 ds"

text \<open>The decimal numeral of a natural number.\<close>

function natToString :: "nat \<Rightarrow> string" where
  "natToString n =
     (if n < 10 then [char_of (48 + n)]
      else natToString (n div 10) @ [char_of (48 + n mod 10)])"
  by pat_completeness auto
termination
  by (relation "measure (\<lambda>n. n)") auto

text \<open>
  The numbers that \<open>Number.parseInt\<close> yields on decimal digits are IEEE 754 doubles: a
  natural number that a double represents exactly, or \<open>Infinity\<close>. \<open>roundToDouble\<close> is the
  rounding to the nearest double, ties to the even significand (53 bits); from
  \<open>2 ^ 1024 - 2 ^ 970\<close> on it gives \<open>Infinity\<close>. \<open>Finite n\<close> is the double whose exact value
  is \<open>n\<close>; JavaScript prints it as \<open>Number_toString\<close> says, with the shortest digits that
  round to it: \<open>12345678901234567890\<close> is read as the double 12345678901234567168 and
  printed as \<open>12345678901234567000\<close>.
\<close>

datatype IntegerNumber = Finite nat | Infinity

function bitLength :: "nat \<Rightarrow> nat" where
  "bitLength n = (if n = 0 then 0 else Suc (bitLength (n div 2)))"
  by pat_completeness auto
termination
  by (relation "measure (\<lambda>n. n)") auto

definition roundToDouble :: "nat \<Rightarrow> IntegerNumber" where
  "roundToDouble n =
     (let e = bitLength n - 53;
          q = n div 2 ^ e;
          r = n mod 2 ^ e;
          m = (if 2 * r > 2 ^ e \<or> (2 * r = 2 ^ e \<and> odd q) then q + 1 else q) * 2 ^ e
      in if m \<ge> 2 ^ 1024 then Infinity else Finite m)"

text \<open>\<open>Number.parseInt(digits, 10)\<close> on a string of decimal digits.\<close>

definition Number_parseInt :: "string \<Rightarrow> IntegerNumber" where
  "Number_parseInt ds = roundToDouble (mathInt ds)"

text \<open>
  \<open>Number::toString\<close> in radix 10, as a template literal prints a number: the shortest
  decimal numeral \<open>s * 10 ^ (n - k)\<close> of \<open>k\<close> digits that rounds to the double, the nearest
  one if there are two (the even \<open>s\<close> on a tie), printed in full when it has at most 21
  digits and with an exponent otherwise. \<open>shortestFrom x d k\<close> tries \<open>k\<close>, \<open>k + 1\<close>, ... digits
  for a double \<open>x\<close> of \<open>d\<close> digits; with \<open>d\<close> digits \<open>x\<close> itself is found.
\<close>

fun shortestFrom :: "nat \<Rightarrow> nat \<Rightarrow> nat \<Rightarrow> nat \<Rightarrow> nat" where
  "shortestFrom x d k 0 = x"
| "shortestFrom x d k (Suc fuel) =
     (let unit = 10 ^ (d - k);
          lo = (x div unit) * unit;
          hi = lo + unit;
          okLo = (roundToDouble lo = Finite x);
          okHi = (roundToDouble hi = Finite x)
      in if okLo \<and> okHi
         then (if x - lo < hi - x then lo
               else if hi - x < x - lo then hi
               else if even (lo div unit) then lo else hi)
         else if okLo then lo
         else if okHi then hi
         else shortestFrom x d (Suc k) fuel)"

definition shortestDecimal :: "nat \<Rightarrow> nat" where
  "shortestDecimal x = shortestFrom x (length (natToString x)) 1 (length (natToString x))"

definition Number_toString :: "IntegerNumber \<Rightarrow> string" where
  "Number_toString v =
     (case v of
        Infinity \<Rightarrow> ''Infinity''
      | Finite n \<Rightarrow>
          (case roundToDouble n of
             Infinity \<Rightarrow> ''Infinity''
           | Finite x \<Rightarrow>
               (let ds = natToString (shortestDecimal x);
                    s = rev (dropWhile (\<lambda>c. c = CHR ''0'') (rev ds))
                in if length ds \<le> 21 then ds
                   else (if length s = 1 then s else hd s # CHR ''.'' # tl s)
                        @ ''e+'' @ natToString (length ds - 1))))"

text \<open>\<open>v + 1\<close> and \<open>Math.max\<close> on these numbers.\<close>

definition plusOne :: "IntegerNumber \<Rightarrow> IntegerNumber" where
  "plusOne v = (case v of Infinity \<Rightarrow> Infinity | Finite n \<Rightarrow> roundToDouble (n + 1))"

definition Math_max :: "IntegerNumber \<Rightarrow> IntegerNumber \<Rightarrow> IntegerNumber" where
  "Math_max a b =
     (case a of
        Infinity \<Rightarrow> Infinity
      | Finite m \<Rightarrow> (case b of Infinity \<Rightarrow> Infinity | Finite n \<Rightarrow> Finite (max m n)))"


text \<open>\<open>s.replace(/\s+/g, " ")\<close>: every maximal run of white space becomes one space.\<close>

fun collapseWhitespace :: "bool \<Rightarrow> string \<Rightarrow> string" where
  "collapseWhitespace inRun [] = []"
| "collapseWhitespace inRun (c # cs) =
     (if isWhitespace c
      then (if inRun then collapseWhitespace True cs else CHR '' '' # collapseWhitespace True cs)
      else c # collapseWhitespace False cs)"

definition endsWith :: "string \<Rightarrow> string \<Rightarrow> bool" where
  "endsWith s suffix = (length suffix \<le> length s \<and> drop (length s - length suffix) s = suffix)"

text \<open>POSIX \<open>path.basename\<close>, \<open>path.dirname\<close> and \<open>path.join\<close> on paths without empty, \<open>.\<close> or \<open>..\<close> segments.\<close>

definition basename :: "string \<Rightarrow> string" where
  "basename p = rev (takeWhile (\<lambda>c. c \<noteq> CHR ''/'') (rev p))"

definition dirname :: "string \<Rightarrow> string" where
  "dirname p =
     (let r = dropWhile (\<lambda>c. c \<noteq> CHR ''/'') (rev p)
      in if r = [] then ''.'' else if tl r = [] then ''/'' else rev (tl r))"

definition pathJoin :: "string \<Rightarrow> string \<Rightarrow> string" where
  "pathJoin d f = d @ ''/'' @ f"

subsection \<open>Data model\<close>

datatype StoredRole = RoleUser | RoleAssistant

definition roleName :: "StoredRole \<Rightarrow> string" where
  "roleName r = (case r of RoleUser \<Rightarrow> ''user'' | RoleAssistant \<Rightarrow> ''assistant'')"

record StoredMessage =
  msg_id :: string
  msg_role :: StoredRole
  msg_text :: string
  msg_created_at :: string

record BundleFormat =
  format_name :: string
  format_version :: string

record BundleEncoding =
  charset :: string
  line_endings :: string

record ConversationInfo =
  conv_id :: string
  conv_name :: string
  name_hash_sha256 :: string
  created_at :: string
  updated_at :: string
  userId :: "string option"
  userName :: "string option"

record ModelInfo =
  model_kind :: string
  model_name :: string

record MessageContainer =
  stored_messages :: "StoredMessage list"
  filepaths :: "string list"
  stored_tools :: "string list"
  stored_notes :: string

record ConversationBundle =
  bundle_format :: BundleFormat
  bundle_encoding :: BundleEncoding
  conversation :: ConversationInfo
  bundle_model :: ModelInfo
  bundle_messages :: MessageContainer

record ActiveFileDetails =
  existsActive :: "bool option"
  activeChatIndex :: "int option"
  activeJsonFilePath :: string

record GlobalInfoTemplate =
  activeFileDetails :: ActiveFileDetails
  convoName :: string
  convoIndex :: int
  carbonFootprint :: real
  permanent_memories :: "string list"

record ConversationRecord =
  rec_conversationId :: string
  rec_filePath :: string
  rec_bundle :: ConversationBundle


text \<open>The messages of the user interface (type \<open>UIMessage\<close> of the \<open>ai\<close> package).\<close>

datatype UIRole = UISystem | UIUser | UIAssistant

datatype UIPart = TextPart string | OtherPart

record UIMessage =
  ui_id :: string
  ui_role :: UIRole
  ui_parts :: "UIPart list option"
  ui_content :: "string option"


record PersistOptions =
  opt_allowCreate :: "bool option"
  opt_modelName :: "string option"
  opt_userId :: "string option"
  opt_userName :: "string option"

subsection \<open>The platform: file system, clock, random identifiers\<close>

text \<open>
  A file holds JSON text. The model keeps the value the text stands for: a conversation
  bundle, a global-info record, some other JSON value that has none of the fields the
  store reads (\<open>OtherJson\<close>), or text that \<open>JSON.parse\<close> rejects (\<open>Unparseable\<close>), which
  is what a write that stopped half-way leaves behind. \<open>JSON.parse (JSON.stringify v)\<close>
  is taken to be \<open>v\<close>.
\<close>

datatype filedata =
  BundleData ConversationBundle
| GlobalData GlobalInfoTemplate
| OtherJson
| Unparseable

datatype error = ENOENT | EIO | SyntaxError | Error string

text \<open>
  An operation of the file system can fail for reasons outside the program. Each
  operation takes the next entry of the schedule \<open>faults\<close>: \<open>None\<close> (or an empty
  schedule) lets it run, \<open>Some FailClean\<close> makes it fail without effect, and
  \<open>Some FailTorn\<close> makes \<open>writeFile\<close> fail after it has truncated the file and written a
  part of the text.
\<close>

datatype fault = FailClean | FailTorn

record World =
  fs :: "(string \<times> filedata) list"
  faults :: "fault option list"
  clockReads :: nat
  uuidDraws :: nat

text \<open>
  What the process and its runtime fix from outside: the working directory, the process
  id, the model named by the environment, the clock (the time in milliseconds at the
  k-th reading), the random UUIDs (the k-th one drawn), and the library functions
  \<open>Date.prototype.toISOString\<close>, \<open>Date.parse\<close> (\<open>None\<close> for \<open>NaN\<close>) and SHA-256.
\<close>

record Platform =
  cwd :: string
  pid :: string
  DEFAULT_MODEL_NAME :: string
  Date_now :: "nat \<Rightarrow> nat"
  randomUUID :: "nat \<Rightarrow> string"
  toISOString :: "nat \<Rightarrow> string"
  Date_parse :: "string \<Rightarrow> int option"
  sha256_hex :: "string \<Rightarrow> string"

definition CONVERSATIONS_DIR :: "Platform \<Rightarrow> string" where
  "CONVERSATIONS_DIR pf = pathJoin (pathJoin (cwd pf) ''dedalus_stuff'') ''conversations''"

definition GLOBAL_INFO_JSON_PATH :: "Platform \<Rightarrow> string" where
  "GLOBAL_INFO_JSON_PATH pf = pathJoin (pathJoin (cwd pf) ''dedalus_stuff'') ''globalInfo.json''"

definition DEFAULT_MODEL_KIND :: string where
  "DEFAULT_MODEL_KIND = ''dedalus''"

definition readClock :: "Platform \<Rightarrow> World \<Rightarrow> nat \<times> World" where
  "readClock pf w = (Date_now pf (clockReads w), w\<lparr>clockReads := clockReads w + 1\<rparr>)"

definition nowISOString :: "Platform \<Rightarrow> World \<Rightarrow> string \<times> World" where
  "nowISOString pf w = (case readClock pf w of (t, w1) \<Rightarrow> (toISOString pf t, w1))"

definition drawUUID :: "Platform \<Rightarrow> World \<Rightarrow> string \<times> World" where
  "drawUUID pf w = (randomUUID pf (uuidDraws w), w\<lparr>uuidDraws := uuidDraws w + 1\<rparr>)"

definition takeFault :: "World \<Rightarrow> fault option \<times> World" where
  "takeFault w = (case faults w of [] \<Rightarrow> (None, w) | f # rest \<Rightarrow> (f, w\<lparr>faults := rest\<rparr>))"

fun fs_put :: "string \<Rightarrow> filedata \<Rightarrow> (string \<times> filedata) list \<Rightarrow> (string \<times> filedata) list" where
  "fs_put p d [] = [(p, d)]"
| "fs_put p d ((q, e) # rest) = (if p = q then (p, d) # rest else (q, e) # fs_put p d rest)"

definition fs_del :: "string \<Rightarrow> (string \<times> filedata) list \<Rightarrow> (string \<times> filedata) list" where
  "fs_del p files = filter (\<lambda>entry. fst entry \<noteq> p) files"

definition fs_mkdir :: "string \<Rightarrow> World \<Rightarrow> (error + unit) \<times> World" where
  "fs_mkdir d w =
     (case takeFault w of
        (Some f, w1) \<Rightarrow> (Inl EIO, w1)
      | (None, w1) \<Rightarrow> (Inr (), w1))"

definition fs_readFile :: "string \<Rightarrow> World \<Rightarrow> (error + filedata) \<times> World" where
  "fs_readFile p w =
     (case takeFault w of
        (Some f, w1) \<Rightarrow> (Inl EIO, w1)
      | (None, w1) \<Rightarrow>
          (case map_of (fs w1) p of
             None \<Rightarrow> (Inl ENOENT, w1)
           | Some d \<Rightarrow> (Inr d, w1)))"

definition fs_writeFile :: "string \<Rightarrow> filedata \<Rightarrow> World \<Rightarrow> (error + unit) \<times> World" where
  "fs_writeFile p d w =
     (case takeFault w of
        (Some FailClean, w1) \<Rightarrow> (Inl EIO, w1)
      | (Some FailTorn, w1) \<Rightarrow> (Inl EIO, w1\<lparr>fs := fs_put p Unparseable (fs w1)\<rparr>)
      | (None, w1) \<Rightarrow> (Inr (), w1\<lparr>fs := fs_put p d (fs w1)\<rparr>))"

definition fs_rename :: "string \<Rightarrow> string \<Rightarrow> World \<Rightarrow> (error + unit) \<times> World" where
  "fs_rename src dst w =
     (case takeFault w of
        (Some f, w1) \<Rightarrow> (Inl EIO, w1)
      | (None, w1) \<Rightarrow>
          (case map_of (fs w1) src of
             None \<Rightarrow> (Inl ENOENT, w1)
           | Some d \<Rightarrow> (Inr (), w1\<lparr>fs := fs_put dst d (fs_del src (fs w1))\<rparr>)))"

definition fs_unlink :: "string \<Rightarrow> World \<Rightarrow> (error + unit) \<times> World" where
  "fs_unlink p w =
     (case takeFault w of
        (Some f, w1) \<Rightarrow> (Inl EIO, w1)
      | (None, w1) \<Rightarrow>
          (case map_of (fs w1) p of
             None \<Rightarrow> (Inl ENOENT, w1)
           | Some d \<Rightarrow> (Inr (), w1\<lparr>fs := fs_del p (fs w1)\<rparr>)))"

text \<open>\<open>readdir\<close>: the names of the files directly in a directory, in the directory's order.\<close>

definition entryName :: "string \<Rightarrow> string \<Rightarrow> string option" where
  "entryName d p =
     (let prefix = d @ ''/''; name = drop (length prefix) p
      in if take (length prefix) p = prefix \<and> name \<noteq> [] \<and> CHR ''/'' \<notin> set name
         then Some name else None)"

definition fs_readdir :: "string \<Rightarrow> World \<Rightarrow> (error + string list) \<times> World" where
  "fs_readdir d w =
     (case takeFault w of
        (Some f, w1) \<Rightarrow> (Inl EIO, w1)
      | (None, w1) \<Rightarrow> (Inr (List.map_filter (\<lambda>entry. entryName d (fst entry)) (fs w1)), w1))"

subsection \<open>Identifiers, titles and user fields\<close>

definition sanitizeConversationId :: "string option \<Rightarrow> string option" where
  "sanitizeConversationId v =
     (case v of
        None \<Rightarrow> None
      | Some s \<Rightarrow>
          if s = [] then None
          else (let sanitized = filter isIdChar (trim s)
                in if sanitized \<noteq> [] then Some sanitized else None))"

definition buildConversationFilePath :: "Platform \<Rightarrow> string \<Rightarrow> string" where
  "buildConversationFilePath pf conversationId =
     pathJoin (CONVERSATIONS_DIR pf) (conversationId @ ''.json'')"

definition hashConversationName :: "Platform \<Rightarrow> string \<Rightarrow> string" where
  "hashConversationName pf name = sha256_hex pf name"

text \<open>\<open>/^conversation(\d+)$/i\<close> and \<open>Number.parseInt\<close> of its group.\<close>

definition getConversationIndex :: "string \<Rightarrow> IntegerNumber option" where
  "getConversationIndex conversationId =
     (let digits = drop 12 conversationId
      in if toLowerCase (take 12 conversationId) = ''conversation'' \<and> digits \<noteq> []
            \<and> list_all isDigit digits
         then Some (Number_parseInt digits) else None)"

definition defaultConversationTitle :: "string \<Rightarrow> string" where
  "defaultConversationTitle conversationId =
     (case getConversationIndex conversationId of
        Some conversationIndex \<Rightarrow> ''Conversation '' @ Number_toString conversationIndex
      | None \<Rightarrow> conversationId)"

definition normalizeConversationTitle :: "string option \<Rightarrow> string \<Rightarrow> string" where
  "normalizeConversationTitle rawName conversationId =
     (case rawName of
        Some name \<Rightarrow>
          (let trimmed = trim name
           in if trimmed \<noteq> [] then
                (case getConversationIndex trimmed of
                   Some n \<Rightarrow> ''Conversation '' @ Number_toString n
                 | None \<Rightarrow> trimmed)
              else defaultConversationTitle conversationId)
      | None \<Rightarrow> defaultConversationTitle conversationId)"

definition sanitizeUserId :: "string option \<Rightarrow> string option" where
  "sanitizeUserId v =
     (case v of
        None \<Rightarrow> None
      | Some s \<Rightarrow>
          (let sanitized = filter isIdChar (trim s)
           in if sanitized \<noteq> [] then Some sanitized else None))"

definition sanitizeUserName :: "string option \<Rightarrow> string option" where
  "sanitizeUserName v =
     (case v of
        None \<Rightarrow> None
      | Some s \<Rightarrow>
          (let normalized = collapseWhitespace False (trim s)
           in if normalized = [] then None else Some (take 120 normalized)))"

subsection \<open>Messages\<close>

definition createMessageId :: "Platform \<Rightarrow> StoredRole \<Rightarrow> World \<Rightarrow> string \<times> World" where
  "createMessageId pf r w =
     (case readClock pf w of
        (t, w1) \<Rightarrow>
          (case drawUUID pf w1 of
             (u, w2) \<Rightarrow> (roleName r @ ''-'' @ natToString t @ ''-'' @ take 8 u, w2)))"

definition extractTextFromUIMessage :: "UIMessage \<Rightarrow> string" where
  "extractTextFromUIMessage message =
     (let fromParts =
            map_option
              (\<lambda>parts. concat (List.map_filter
                 (\<lambda>part. case part of TextPart t \<Rightarrow> Some t | OtherPart \<Rightarrow> None) parts))
              (ui_parts message);
          fromContent = (case ui_content message of Some c \<Rightarrow> c | None \<Rightarrow> [])
      in case fromParts of
           Some t \<Rightarrow> if t \<noteq> [] then t else fromContent
         | None \<Rightarrow> fromContent)"

definition storedRoleOf :: "UIRole \<Rightarrow> StoredRole option" where
  "storedRoleOf r = (case r of UIUser \<Rightarrow> Some RoleUser | UIAssistant \<Rightarrow> Some RoleAssistant
                     | UISystem \<Rightarrow> None)"

definition toStoredMessage :: "Platform \<Rightarrow> UIMessage \<Rightarrow> World \<Rightarrow> StoredMessage option \<times> World" where
  "toStoredMessage pf message w =
     (case storedRoleOf (ui_role message) of
        None \<Rightarrow> (None, w)
      | Some r \<Rightarrow>
          (let t = extractTextFromUIMessage message
           in if trim t = [] then (None, w)
              else
                (case (if ui_id message \<noteq> [] then (ui_id message, w)
                       else createMessageId pf r w) of
                   (i, w1) \<Rightarrow>
                     (case nowISOString pf w1 of
                        (now, w2) \<Rightarrow>
                          (Some \<lparr>msg_id = i, msg_role = r, msg_text = t, msg_created_at = now\<rparr>,
                           w2)))))"

text \<open>\<open>messages.map(toStoredMessage).filter(m => m !== null)\<close>, the messages taken in order.\<close>

fun toStoredMessages :: "Platform \<Rightarrow> UIMessage list \<Rightarrow> World \<Rightarrow> StoredMessage list \<times> World" where
  "toStoredMessages pf [] w = ([], w)"
| "toStoredMessages pf (m # ms) w =
     (case toStoredMessage pf m w of
        (r, w1) \<Rightarrow>
          (case toStoredMessages pf ms w1 of
             (rest, w2) \<Rightarrow> ((case r of None \<Rightarrow> rest | Some sm \<Rightarrow> sm # rest), w2)))"


definition createConversationBundle :: "Platform \<Rightarrow> string \<Rightarrow> World \<Rightarrow> ConversationBundle \<times> World" where
  "createConversationBundle pf conversationId w =
     (case nowISOString pf w of
        (now, w1) \<Rightarrow>
          (let conversationName = defaultConversationTitle conversationId
           in (\<lparr>bundle_format = \<lparr>format_name = ''conversation_bundle'', format_version = ''1.0''\<rparr>,
                bundle_encoding = \<lparr>charset = ''utf-8'', line_endings = ''lf''\<rparr>,
                conversation =
                  \<lparr>conv_id = conversationId,
                   conv_name = conversationName,
                   name_hash_sha256 = hashConversationName pf conversationName,
                   created_at = now,
                   updated_at = now,
                   userId = None,
                   userName = None\<rparr>,
                bundle_model = \<lparr>model_kind = DEFAULT_MODEL_KIND, model_name = DEFAULT_MODEL_NAME pf\<rparr>,
                bundle_messages =
                  \<lparr>stored_messages = [], filepaths = [], stored_tools = [], stored_notes = []\<rparr>\<rparr>,
               w1)))"

text \<open>
  \<open>normalizeStoredMessages\<close> on an array whose entries have the fields of a stored
  message: an entry with blank text is dropped, an empty id is replaced by a fresh one.
\<close>

fun normalizeStoredMessages :: "Platform \<Rightarrow> StoredMessage list \<Rightarrow> World \<Rightarrow> StoredMessage list \<times> World" where
  "normalizeStoredMessages pf [] w = ([], w)"
| "normalizeStoredMessages pf (m # ms) w =
     (if trim (msg_text m) = [] then normalizeStoredMessages pf ms w
      else
        (case (if msg_id m \<noteq> [] then (msg_id m, w) else createMessageId pf (msg_role m) w) of
           (i, w1) \<Rightarrow>
             (case normalizeStoredMessages pf ms w1 of
                (rest, w2) \<Rightarrow> (m\<lparr>msg_id := i\<rparr> # rest, w2))))"

text \<open>The loop of \<open>mergeStoredMessagesPreservingExisting\<close> over the incoming messages.\<close>

fun mergeLoop :: "StoredMessage list \<Rightarrow> string set \<Rightarrow> StoredMessage list \<Rightarrow> StoredMessage list" where
  "mergeLoop mergedMessages seenMessageIds [] = mergedMessages"
| "mergeLoop mergedMessages seenMessageIds (incomingMessage # rest) =
     (if msg_id incomingMessage \<in> seenMessageIds
      then mergeLoop mergedMessages seenMessageIds rest
      else mergeLoop (mergedMessages @ [incomingMessage])
             (insert (msg_id incomingMessage) seenMessageIds) rest)"

definition mergeStoredMessagesPreservingExisting ::
  "StoredMessage list \<Rightarrow> StoredMessage list \<Rightarrow> StoredMessage list" where
  "mergeStoredMessagesPreservingExisting existingMessages incomingMessages =
     (if existingMessages = [] then incomingMessages
      else if incomingMessages = [] then existingMessages
      else mergeLoop existingMessages (set (map msg_id existingMessages)) incomingMessages)"

text \<open>
  \<open>normalizeBundle\<close> on the parsed content of a file. A value without the fields of a
  bundle gives the fallback, a fresh bundle.
\<close>

definition normalizeBundle :: "Platform \<Rightarrow> filedata \<Rightarrow> string \<Rightarrow> World \<Rightarrow> ConversationBundle \<times> World" where
  "normalizeBundle pf raw conversationId w =
     (case createConversationBundle pf conversationId w of
        (fallback, w1) \<Rightarrow>
          (case raw of
             BundleData parsed \<Rightarrow>
               (let conversationName =
                      normalizeConversationTitle (Some (conv_name (conversation parsed))) conversationId;
                    conversationUserId = sanitizeUserId (userId (conversation parsed));
                    conversationUserName = sanitizeUserName (userName (conversation parsed))
                in case normalizeStoredMessages pf (stored_messages (bundle_messages parsed)) w1 of
                     (msgs, w2) \<Rightarrow>
                       (\<lparr>bundle_format = bundle_format parsed,
                         bundle_encoding = bundle_encoding parsed,
                         conversation =
                           \<lparr>conv_id = conversationId,
                            conv_name = conversationName,
                            name_hash_sha256 = name_hash_sha256 (conversation parsed),
                            created_at = created_at (conversation parsed),
                            updated_at = updated_at (conversation parsed),
                            userId = conversationUserId,
                            userName = conversationUserName\<rparr>,
                         bundle_model = bundle_model parsed,
                         bundle_messages =
                           \<lparr>stored_messages = msgs,
                            filepaths = filepaths (bundle_messages parsed),
                            stored_tools = stored_tools (bundle_messages parsed),
                            stored_notes = stored_notes (bundle_messages parsed)\<rparr>\<rparr>,
                        w2))
           | _ \<Rightarrow> (fallback, w1)))"

subsection \<open>Writing and reading files\<close>

definition atomicWriteJson :: "Platform \<Rightarrow> string \<Rightarrow> filedata \<Rightarrow> World \<Rightarrow> (error + unit) \<times> World" where
  "atomicWriteJson pf filePath payload w =
     (let directory = dirname filePath
      in case fs_mkdir directory w of
           (Inl e, w1) \<Rightarrow> (Inl e, w1)
         | (Inr u1, w1) \<Rightarrow>
             (case drawUUID pf w1 of
                (uuid, w2) \<Rightarrow>
                  (let tempPath = pathJoin directory
                         (''.'' @ basename filePath @ ''.'' @ pid pf @ ''.'' @ uuid @ ''.tmp'')
                   in case fs_writeFile tempPath payload w2 of
                        (Inl e, w3) \<Rightarrow> (Inl e, w3)
                      | (Inr u2, w3) \<Rightarrow>
                          (case fs_rename tempPath filePath w3 of
                             (Inr u3, w4) \<Rightarrow> (Inr (), w4)
                           | (Inl e, w4) \<Rightarrow>
                               (case fs_unlink tempPath w4 of
                                  (cleanup, w5) \<Rightarrow> (Inl e, w5))))))"

definition saveBundle :: "Platform \<Rightarrow> string \<Rightarrow> ConversationBundle \<Rightarrow> World \<Rightarrow> (error + unit) \<times> World" where
  "saveBundle pf filePath bundle w = atomicWriteJson pf filePath (BundleData bundle) w"

definition loadBundle :: "Platform \<Rightarrow> string \<Rightarrow> string \<Rightarrow> World \<Rightarrow> (error + ConversationBundle) \<times> World" where
  "loadBundle pf filePath conversationId w =
     (case fs_readFile filePath w of
        (Inl e, w1) \<Rightarrow> (Inl e, w1)
      | (Inr raw, w1) \<Rightarrow>
          (case raw of
             Unparseable \<Rightarrow> (Inl SyntaxError, w1)
           | _ \<Rightarrow>
               (case normalizeBundle pf raw conversationId w1 of
                  (bundle, w2) \<Rightarrow> (Inr bundle, w2))))"

text \<open>
  \<open>saveBundle\<close> of the older copy of the store module (src/unnamed/part_002, lines 236 to
  238): one \<open>fs.writeFile\<close> on the target itself.
\<close>

definition legacy_saveBundle :: "string \<Rightarrow> ConversationBundle \<Rightarrow> World \<Rightarrow> (error + unit) \<times> World" where
  "legacy_saveBundle filePath bundle w = fs_writeFile filePath (BundleData bundle) w"

subsection \<open>The global active-conversation record\<close>


text \<open>\<open>loadGlobalPayload\<close>: the parsed record, or \<open>None\<close> for the empty object.\<close>

definition loadGlobalPayload :: "Platform \<Rightarrow> World \<Rightarrow> GlobalInfoTemplate option \<times> World" where
  "loadGlobalPayload pf w =
     (case fs_readFile (GLOBAL_INFO_JSON_PATH pf) w of
        (Inr (GlobalData g), w1) \<Rightarrow> (Some g, w1)
      | (other, w1) \<Rightarrow> (None, w1))"

definition normalizeGlobalInfoPayload :: "GlobalInfoTemplate option \<Rightarrow> GlobalInfoTemplate" where
  "normalizeGlobalInfoPayload raw =
     (case raw of
        None \<Rightarrow>
          \<lparr>activeFileDetails =
             \<lparr>existsActive = None, activeChatIndex = None, activeJsonFilePath = []\<rparr>,
           convoName = [], convoIndex = 0, carbonFootprint = 0, permanent_memories = []\<rparr>
      | Some g \<Rightarrow>
          \<lparr>activeFileDetails =
             \<lparr>existsActive = existsActive (activeFileDetails g),
              activeChatIndex = activeChatIndex (activeFileDetails g),
              activeJsonFilePath = activeJsonFilePath (activeFileDetails g)\<rparr>,
           convoName = convoName g,
           convoIndex = (if convoIndex g \<ge> 0 then convoIndex g else 0),
           carbonFootprint = carbonFootprint g,
           permanent_memories = permanent_memories g\<rparr>)"


text \<open>
  \<open>updateGlobalActiveConversation\<close>. The record is kept as a reader gets it back:
  \<open>JSON.stringify\<close> writes a number that is not finite as \<open>null\<close>, which
  \<open>normalizeGlobalInfoPayload\<close> reads as no chat index and as \<open>convoIndex\<close> 0.
\<close>

definition updateGlobalActiveConversation :: "Platform \<Rightarrow> ConversationRecord \<Rightarrow> World \<Rightarrow> (error + unit) \<times> World" where
  "updateGlobalActiveConversation pf record w =
     (case loadGlobalPayload pf w of
        (raw, w1) \<Rightarrow>
          (let current = normalizeGlobalInfoPayload raw;
               conversationIndex = getConversationIndex (rec_conversationId record);
               details = (activeFileDetails current)
                 \<lparr>existsActive := Some True, activeJsonFilePath := rec_filePath record\<rparr>;
               named = current
                 \<lparr>activeFileDetails := details,
                  convoName := normalizeConversationTitle
                     (Some (conv_name (conversation (rec_bundle record))))
                     (rec_conversationId record)\<rparr>;
               updated =
                 (case conversationIndex of
                    Some (Finite i) \<Rightarrow>
                      named\<lparr>activeFileDetails := details\<lparr>activeChatIndex := Some (int i)\<rparr>,
                            convoIndex := max (convoIndex named) (int i)\<rparr>
                  | Some Infinity \<Rightarrow>
                      named\<lparr>activeFileDetails := details\<lparr>activeChatIndex := None\<rparr>,
                            convoIndex := 0\<rparr>
                  | None \<Rightarrow> named)
           in atomicWriteJson pf (GLOBAL_INFO_JSON_PATH pf) (GlobalData updated) w1))"

subsection \<open>Conversation records\<close>

text \<open>\<open>/^conversation(\d+)\.json$/\<close> and \<open>Number.parseInt\<close> of its group.\<close>

definition conversationFileNumber :: "string \<Rightarrow> IntegerNumber option" where
  "conversationFileNumber fileName =
     (let digits = take (length fileName - 17) (drop 12 fileName)
      in if take 12 fileName = ''conversation'' \<and> endsWith fileName ''.json''
            \<and> length fileName > 17 \<and> list_all isDigit digits
         then Some (Number_parseInt digits) else None)"

definition getNextConversationId :: "Platform \<Rightarrow> World \<Rightarrow> (error + string) \<times> World" where
  "getNextConversationId pf w =
     (case fs_readdir (CONVERSATIONS_DIR pf) w of
        (Inl e, w1) \<Rightarrow> (Inl e, w1)
      | (Inr files, w1) \<Rightarrow>
          (let largestConversationNumber =
                 foldl (\<lambda>largestNumber fileName.
                          case conversationFileNumber fileName of
                            None \<Rightarrow> largestNumber
                          | Some candidate \<Rightarrow> Math_max largestNumber candidate)
                       (Finite 0) files
           in (Inr (''conversation'' @ Number_toString (plusOne largestConversationNumber)), w1)))"

definition ensureConversationRecord :: "Platform \<Rightarrow> string option \<Rightarrow> World \<Rightarrow> (error + ConversationRecord) \<times> World" where
  "ensureConversationRecord pf preferredConversationId w =
     (case fs_mkdir (CONVERSATIONS_DIR pf) w of
        (Inl e, w1) \<Rightarrow> (Inl e, w1)
      | (Inr u1, w1) \<Rightarrow>
          (case sanitizeConversationId preferredConversationId of
             Some sanitizedConversationId \<Rightarrow>
               (let filePath = buildConversationFilePath pf sanitizedConversationId
                in case loadBundle pf filePath sanitizedConversationId w1 of
                     (Inr bundle, w2) \<Rightarrow>
                       (Inr \<lparr>rec_conversationId = sanitizedConversationId, rec_filePath = filePath,
                             rec_bundle = bundle\<rparr>, w2)
                   | (Inl e, w2) \<Rightarrow>
                       if e \<noteq> ENOENT then (Inl e, w2)
                       else
                         (case createConversationBundle pf sanitizedConversationId w2 of
                            (bundle, w3) \<Rightarrow>
                              (case saveBundle pf filePath bundle w3 of
                                 (Inl e', w4) \<Rightarrow> (Inl e', w4)
                               | (Inr u2, w4) \<Rightarrow>
                                   (Inr \<lparr>rec_conversationId = sanitizedConversationId,
                                         rec_filePath = filePath, rec_bundle = bundle\<rparr>, w4))))
           | None \<Rightarrow>
               (case getNextConversationId pf w1 of
                  (Inl e, w2) \<Rightarrow> (Inl e, w2)
                | (Inr conversationId, w2) \<Rightarrow>
                    (let filePath = buildConversationFilePath pf conversationId
                     in case createConversationBundle pf conversationId w2 of
                          (bundle, w3) \<Rightarrow>
                            (case saveBundle pf filePath bundle w3 of
                               (Inl e', w4) \<Rightarrow> (Inl e', w4)
                             | (Inr u2, w4) \<Rightarrow>
                                 (Inr \<lparr>rec_conversationId = conversationId,
                                       rec_filePath = filePath, rec_bundle = bundle\<rparr>, w4))))))"

definition ensureExistingConversationRecord :: "Platform \<Rightarrow> string option \<Rightarrow> World \<Rightarrow> (error + ConversationRecord) \<times> World" where
  "ensureExistingConversationRecord pf requiredConversationId w =
     (case fs_mkdir (CONVERSATIONS_DIR pf) w of
        (Inl e, w1) \<Rightarrow> (Inl e, w1)
      | (Inr u1, w1) \<Rightarrow>
          (case sanitizeConversationId requiredConversationId of
             None \<Rightarrow> (Inl (Error ''Missing active conversation id.''), w1)
           | Some sanitizedConversationId \<Rightarrow>
               (let filePath = buildConversationFilePath pf sanitizedConversationId
                in case loadBundle pf filePath sanitizedConversationId w1 of
                     (Inl e, w2) \<Rightarrow> (Inl e, w2)
                   | (Inr bundle, w2) \<Rightarrow>
                       (Inr \<lparr>rec_conversationId = sanitizedConversationId, rec_filePath = filePath,
                             rec_bundle = bundle\<rparr>, w2))))"

subsection \<open>Operations of the store\<close>


definition persistPromptSnapshot :: "Platform \<Rightarrow> string option \<Rightarrow> UIMessage list \<Rightarrow> PersistOptions \<Rightarrow> World \<Rightarrow> (error + string) \<times> World" where
  "persistPromptSnapshot pf conversationId messages options w =
     (let allowCreate = (case opt_allowCreate options of Some b \<Rightarrow> b | None \<Rightarrow> True)
      in case (if allowCreate then ensureConversationRecord pf conversationId w
               else ensureExistingConversationRecord pf conversationId w) of
           (Inl e, w1) \<Rightarrow> (Inl e, w1)
         | (Inr record, w1) \<Rightarrow>
             (let modelName = (case opt_modelName options of Some s \<Rightarrow> trim s | None \<Rightarrow> []);
                  newUserId = sanitizeUserId (opt_userId options);
                  newUserName = sanitizeUserName (opt_userName options)
              in case toStoredMessages pf messages w1 of
                   (incomingMessages, w2) \<Rightarrow>
                     (let b0 = rec_bundle record;
                          b1 = b0\<lparr>bundle_messages := (bundle_messages b0)
                                 \<lparr>stored_messages := mergeStoredMessagesPreservingExisting
                                    (stored_messages (bundle_messages b0)) incomingMessages\<rparr>\<rparr>;
                          b2 = (if modelName \<noteq> []
                                then b1\<lparr>bundle_model :=
                                       \<lparr>model_kind = DEFAULT_MODEL_KIND, model_name = modelName\<rparr>\<rparr>
                                else b1);
                          b3 = (case newUserId of
                                  Some u \<Rightarrow> b2\<lparr>conversation := (conversation b2)\<lparr>userId := Some u\<rparr>\<rparr>
                                | None \<Rightarrow> b2);
                          b4 = (case newUserName of
                                  Some n \<Rightarrow> b3\<lparr>conversation := (conversation b3)\<lparr>userName := Some n\<rparr>\<rparr>
                                | None \<Rightarrow> b3)
                      in case nowISOString pf w2 of
                           (now, w3) \<Rightarrow>
                             (let b5 = b4\<lparr>conversation := (conversation b4)\<lparr>updated_at := now\<rparr>\<rparr>
                              in case saveBundle pf (rec_filePath record) b5 w3 of
                                   (Inl e, w4) \<Rightarrow> (Inl e, w4)
                                 | (Inr u1, w4) \<Rightarrow>
                                     (case updateGlobalActiveConversation pf
                                             (record\<lparr>rec_bundle := b5\<rparr>) w4 of
                                        (logged, w5) \<Rightarrow> (Inr (rec_conversationId record), w5))))))"

definition appendAssistantCompletion :: "Platform \<Rightarrow> string \<Rightarrow> string \<Rightarrow> World \<Rightarrow> (error + unit) \<times> World" where
  "appendAssistantCompletion pf conversationId t w =
     (if trim t = [] then (Inr (), w)
      else
        (case ensureConversationRecord pf (Some conversationId) w of
           (Inl e, w1) \<Rightarrow> (Inl e, w1)
         | (Inr record, w1) \<Rightarrow>
             (let b0 = rec_bundle record;
                  msgs = stored_messages (bundle_messages b0)
              in if msgs \<noteq> [] \<and> msg_role (last msgs) = RoleAssistant \<and> msg_text (last msgs) = t
                 then (Inr (), w1)
                 else
                   (case createMessageId pf RoleAssistant w1 of
                      (i, w2) \<Rightarrow>
                        (case nowISOString pf w2 of
                           (createdAt, w3) \<Rightarrow>
                             (case nowISOString pf w3 of
                                (updatedAt, w4) \<Rightarrow>
                                  (let pushed = msgs @
                                         [\<lparr>msg_id = i, msg_role = RoleAssistant, msg_text = t,
                                           msg_created_at = createdAt\<rparr>];
                                       b1 = b0\<lparr>bundle_messages :=
                                              (bundle_messages b0)\<lparr>stored_messages := pushed\<rparr>,
                                            conversation :=
                                              (conversation b0)\<lparr>updated_at := updatedAt\<rparr>\<rparr>
                                   in saveBundle pf (rec_filePath record) b1 w4)))))))"





text \<open>
  The messages that the merge loop appends to the stored ones: the incoming messages whose
  id is neither stored nor carried by an earlier incoming message.
\<close>

fun appendedById :: "string set \<Rightarrow> StoredMessage list \<Rightarrow> StoredMessage list" where
  "appendedById seen [] = []"
| "appendedById seen (m # ms) =
     (if msg_id m \<in> seen then appendedById seen ms
      else m # appendedById (insert (msg_id m) seen) ms)"

text \<open>The temporary path of \<open>atomicWriteJson\<close> for a target and a drawn UUID.\<close>

definition tempPathOf :: "Platform \<Rightarrow> string \<Rightarrow> string \<Rightarrow> string" where
  "tempPathOf pf filePath uuid =
     pathJoin (dirname filePath) (''.'' @ basename filePath @ ''.'' @ pid pf @ ''.'' @ uuid @ ''.tmp'')"

text \<open>The world after an \<open>atomicWriteJson\<close> that met no fault.\<close>

definition afterAtomicWrite :: "Platform \<Rightarrow> string \<Rightarrow> filedata \<Rightarrow> World \<Rightarrow> World" where
  "afterAtomicWrite pf p d w =
     w\<lparr>uuidDraws := uuidDraws w + 1,
       fs := fs_put p d (fs_del (tempPathOf pf p (randomUUID pf (uuidDraws w)))
               (fs_put (tempPathOf pf p (randomUUID pf (uuidDraws w))) d (fs w)))\<rparr>"

text \<open>Stored messages with an id and with text that is not blank are read back as they are.\<close>

definition wellFormedMessages :: "StoredMessage list \<Rightarrow> bool" where
  "wellFormedMessages ms = list_all (\<lambda>m. msg_id m \<noteq> [] \<and> trim (msg_text m) \<noteq> []) ms"

definition storable :: "UIMessage \<Rightarrow> bool" where
  "storable m = (storedRoleOf (ui_role m) \<noteq> None \<and> trim (extractTextFromUIMessage m) \<noteq> [])"

text \<open>
  The first prompt snapshot of the chat route: the conversation \<open>conversation1\<close> exists
  with no message yet, creation is not allowed, and the request carries two messages with
  the same id.
\<close>

definition duplicate_id_messages :: "UIMessage list" where
  "duplicate_id_messages =
     [\<lparr>ui_id = ''a'', ui_role = UIUser, ui_parts = Some [TextPart ''first''], ui_content = None\<rparr>,
      \<lparr>ui_id = ''a'', ui_role = UIUser, ui_parts = Some [TextPart ''second''], ui_content = None\<rparr>]"

definition route_options :: PersistOptions where
  "route_options =
     \<lparr>opt_allowCreate = Some False, opt_modelName = None, opt_userId = None, opt_userName = None\<rparr>"

definition empty_world :: World where
  "empty_world = \<lparr>fs = [], faults = [], clockReads = 0, uuidDraws = 0\<rparr>"

definition fresh_conversation_world :: "Platform \<Rightarrow> World" where
  "fresh_conversation_world pf =
     \<lparr>fs = [(buildConversationFilePath pf ''conversation1'',
              BundleData (fst (createConversationBundle pf ''conversation1'' empty_world)))],
      faults = [], clockReads = 1, uuidDraws = 1\<rparr>"

subsection \<open>Listed ids, and a fixed platform and store\<close>

text \<open>A platform with fixed values, on which the theorems are evaluated.\<close>

definition example_platform :: Platform where
  "example_platform = \<lparr>cwd = ''/app'', pid = ''4242'', DEFAULT_MODEL_NAME = ''openai/gpt-5'',
     Date_now = (\<lambda>n. 1700000000000 + n), randomUUID = (\<lambda>n. ''uuid-'' @ natToString n),
     toISOString = natToString,
     Date_parse = (\<lambda>s. if list_all isDigit s then Some (int (mathInt s)) else None),
     sha256_hex = (\<lambda>s. ''0000'')\<rparr>"





section \<open>Per-conversation lock (src/app/api/conversation/route.ts)\<close>

text \<open>
  \<open>acquireConversationLock\<close> of the chat route. A queue object \<open>{ tail }\<close> is an address into
  \<open>queueTail\<close>; a tail is \<open>Promise.resolve()\<close> or the \<open>nextTail\<close> of an acquisition. The gate
  of an acquisition is resolved exactly when its \<open>released\<close> flag is set, and no promise of
  the chain is ever rejected. \<open>nextTail = previousTail.then(() => gate, () => gate)\<close> is
  settled, in a step of its own, once \<open>previousTail\<close> is settled and the gate is resolved.
  The code before the \<open>await\<close> runs without interruption, the code after it runs when
  \<open>previousTail\<close> is settled.
\<close>

datatype Tail = ResolvedPromise | NextTail nat

datatype Phase = Awaiting | Returned

datatype Outcome = Completed | Threw

record LockAcquisition =
  acq_conversationId :: string
  acq_queue :: nat
  acq_previousTail :: Tail
  acq_phase :: Phase
  acq_released :: bool
  acq_nextTailSettled :: bool

record LockState =
  acquisitions :: "LockAcquisition list"
  queueTail :: "Tail list"
  conversationLockQueues :: "string \<Rightarrow> nat option"

definition initialLockState :: LockState where
  "initialLockState = \<lparr>acquisitions = [], queueTail = [], conversationLockQueues = (\<lambda>c. None)\<rparr>"

definition promiseSettled :: "LockState \<Rightarrow> Tail \<Rightarrow> bool" where
  "promiseSettled s t =
     (case t of
        ResolvedPromise \<Rightarrow> True
      | NextTail n \<Rightarrow> n < length (acquisitions s) \<and> acq_nextTailSettled (acquisitions s ! n))"

text \<open>The call up to its \<open>await\<close>: the queue is looked up or made, and the new tail installed.\<close>

definition acquire_enter :: "string \<Rightarrow> LockState \<Rightarrow> LockState" where
  "acquire_enter conversationId s =
     (let queue = (case conversationLockQueues s conversationId of
                     Some q \<Rightarrow> q | None \<Rightarrow> length (queueTail s));
          tails = (case conversationLockQueues s conversationId of
                     Some q \<Rightarrow> queueTail s | None \<Rightarrow> queueTail s @ [ResolvedPromise]);
          previousTail = tails ! queue;
          n = length (acquisitions s)
      in s\<lparr>acquisitions := acquisitions s @
              [\<lparr>acq_conversationId = conversationId, acq_queue = queue,
                acq_previousTail = previousTail, acq_phase = Awaiting,
                acq_released = False, acq_nextTailSettled = False\<rparr>],
           queueTail := tails[queue := NextTail n],
           conversationLockQueues := (conversationLockQueues s)(conversationId \<mapsto> queue)\<rparr>)"

text \<open>The call after its \<open>await\<close>: it returns the release function.\<close>

definition acquire_resume :: "nat \<Rightarrow> LockState \<Rightarrow> LockState" where
  "acquire_resume n s =
     s\<lparr>acquisitions := (acquisitions s)[n := (acquisitions s ! n)\<lparr>acq_phase := Returned\<rparr>]\<rparr>"

definition settleNextTail :: "nat \<Rightarrow> LockState \<Rightarrow> LockState" where
  "settleNextTail n s =
     s\<lparr>acquisitions := (acquisitions s)[n := (acquisitions s ! n)\<lparr>acq_nextTailSettled := True\<rparr>]\<rparr>"

text \<open>The release function that acquisition \<open>n\<close> returned.\<close>

definition release :: "nat \<Rightarrow> LockState \<Rightarrow> LockState" where
  "release n s =
     (let a = acquisitions s ! n
      in if acq_released a then s
         else
           (let s1 = s\<lparr>acquisitions := (acquisitions s)[n := a\<lparr>acq_released := True\<rparr>]\<rparr>
            in if conversationLockQueues s1 (acq_conversationId a) = Some (acq_queue a)
                  \<and> queueTail s1 ! acq_queue a = NextTail n
               then s1\<lparr>conversationLockQueues :=
                          (conversationLockQueues s1)(acq_conversationId a := None)\<rparr>
               else s1))"

text \<open>
  What the event loop may run next. A holder calls its release function on every path,
  also after its critical section threw; the function takes no argument.
\<close>

datatype LockEvent = Acquire string | Resume nat | SettleTail nat | Release nat Outcome

fun exec :: "LockEvent \<Rightarrow> LockState \<Rightarrow> LockState option" where
  "exec (Acquire conversationId) s = Some (acquire_enter conversationId s)"
| "exec (Resume n) s =
     (if n < length (acquisitions s) \<and> acq_phase (acquisitions s ! n) = Awaiting
         \<and> promiseSettled s (acq_previousTail (acquisitions s ! n))
      then Some (acquire_resume n s) else None)"
| "exec (SettleTail n) s =
     (if n < length (acquisitions s) \<and> acq_released (acquisitions s ! n)
         \<and> promiseSettled s (acq_previousTail (acquisitions s ! n))
      then Some (settleNextTail n s) else None)"
| "exec (Release n outcome) s =
     (if n < length (acquisitions s) \<and> acq_phase (acquisitions s ! n) = Returned
      then Some (release n s) else None)"

fun run :: "LockEvent list \<Rightarrow> LockState \<Rightarrow> LockState option" where
  "run [] s = Some s"
| "run (e # es) s = (case exec e s of None \<Rightarrow> None | Some s1 \<Rightarrow> run es s1)"

inductive reachable :: "LockState \<Rightarrow> bool" where
  reachable_initial: "reachable initialLockState"
| reachable_exec: "reachable s \<Longrightarrow> exec e s = Some s1 \<Longrightarrow> reachable s1"

definition inCriticalSection :: "LockState \<Rightarrow> nat \<Rightarrow> bool" where
  "inCriticalSection s n =
     (acq_phase (acquisitions s ! n) = Returned \<and> \<not> acq_released (acquisitions s ! n))"

text \<open>The invariant of the reachable lock states.\<close>

definition inv_map :: "LockState \<Rightarrow> bool" where
  "inv_map s =
     (\<forall>c q. conversationLockQueues s c = Some q \<longrightarrow>
        q < length (queueTail s)
        \<and> (\<exists>j < length (acquisitions s). queueTail s ! q = NextTail j
              \<and> acq_conversationId (acquisitions s ! j) = c
              \<and> acq_queue (acquisitions s ! j) = q
              \<and> (\<forall>n. j < n \<and> n < length (acquisitions s)
                     \<longrightarrow> acq_conversationId (acquisitions s ! n) \<noteq> c)))"

definition inv_none :: "LockState \<Rightarrow> bool" where
  "inv_none s =
     (\<forall>c. conversationLockQueues s c = None \<longrightarrow>
        (\<forall>n < length (acquisitions s).
            acq_conversationId (acquisitions s ! n) = c \<longrightarrow> acq_released (acquisitions s ! n)))"

definition earlierReleased :: "LockState \<Rightarrow> nat \<Rightarrow> bool" where
  "earlierReleased s m =
     (\<forall>n < m. acq_conversationId (acquisitions s ! n) = acq_conversationId (acquisitions s ! m)
               \<longrightarrow> acq_released (acquisitions s ! n))"

definition inv_prev :: "LockState \<Rightarrow> bool" where
  "inv_prev s =
     (\<forall>m < length (acquisitions s).
        case acq_previousTail (acquisitions s ! m) of
          ResolvedPromise \<Rightarrow> earlierReleased s m
        | NextTail j \<Rightarrow>
            j < m \<and> acq_conversationId (acquisitions s ! j) = acq_conversationId (acquisitions s ! m)
            \<and> (\<forall>n. j < n \<and> n < m \<longrightarrow>
                  acq_conversationId (acquisitions s ! n) \<noteq> acq_conversationId (acquisitions s ! m)))"

definition inv_settled :: "LockState \<Rightarrow> bool" where
  "inv_settled s =
     (\<forall>j < length (acquisitions s). acq_nextTailSettled (acquisitions s ! j) \<longrightarrow>
        acq_released (acquisitions s ! j) \<and> earlierReleased s j)"

definition inv_returned :: "LockState \<Rightarrow> bool" where
  "inv_returned s =
     (\<forall>m < length (acquisitions s). acq_phase (acquisitions s ! m) = Returned \<longrightarrow>
        promiseSettled s (acq_previousTail (acquisitions s ! m)) \<and> earlierReleased s m)"

definition inv_released :: "LockState \<Rightarrow> bool" where
  "inv_released s =
     (\<forall>n < length (acquisitions s). acq_released (acquisitions s ! n) \<longrightarrow>
        acq_phase (acquisitions s ! n) = Returned)"

definition lockInvariant :: "LockState \<Rightarrow> bool" where
  "lockInvariant s =
     (inv_map s \<and> inv_none s \<and> inv_prev s \<and> inv_settled s \<and> inv_returned s \<and> inv_released s)"

text \<open>The steps that the promise machinery takes by itself.\<close>

fun promiseJob :: "LockEvent \<Rightarrow> bool" where
  "promiseJob (Resume n) = True"
| "promiseJob (SettleTail n) = True"
| "promiseJob (Acquire c) = False"
| "promiseJob (Release n outcome) = False"

text \<open>
  Two requests for \<open>conversation1\<close>; the first is granted the lock, its critical section
  throws, and it releases the lock.
\<close>

definition lock_example_events :: "LockEvent list" where
  "lock_example_events =
     [Acquire ''conversation1'', Acquire ''conversation1'', Resume 0, Release 0 Threw]"

definition lock_example :: LockState where
  "lock_example = the (run lock_example_events initialLockState)"

section \<open>Verification: routing decision engine\<close>

subsection \<open>Rounding and clamping\<close>

lemma Math_round_of_int [simp]: "Math_round (of_int k) = k"
  unfolding Math_round_def by linarith

lemma Math_round_mono: "x \<le> y \<Longrightarrow> Math_round x \<le> Math_round y"
  unfolding Math_round_def by (simp add: floor_mono)

lemma Math_floor_div20: "Math_floor (of_int a / 20) = a div 20"
  unfolding Math_floor_def using floor_divide_of_int_eq[of a 20] by simp

lemma Math_floor_div10: "Math_floor (of_int a / 10) = a div 10"
  unfolding Math_floor_def using floor_divide_of_int_eq[of a 10] by simp

lemma clampInt_eq_spec_clamp:
  "mn \<le> mx \<Longrightarrow> clampInt (Num (of_int k)) mn mx = spec_clamp k mn mx"
  by (auto simp: Let_def spec_clamp_def max_def min_def)

lemma clampInt_mono:
  "x \<le> y \<Longrightarrow> mn \<le> mx \<Longrightarrow> clampInt (Num x) mn mx \<le> clampInt (Num y) mn mx"
  using Math_round_mono[of x y] by (auto simp: Let_def)

lemma clampInt_range: "mn \<le> mx \<Longrightarrow> mn \<le> clampInt v mn mx \<and> clampInt v mn mx \<le> mx"
  by (cases v) (auto simp: Let_def)

lemma spec_clamp_mono: "a \<le> b \<Longrightarrow> spec_clamp a lo hi \<le> spec_clamp b lo hi"
  unfolding spec_clamp_def by auto

subsection \<open>The tier of a routing decision\<close>

text \<open>
  The tier that \<open>buildRoutingDecision\<close> returns, with the two thresholds in closed form.
  The sensitivity is first rounded and clamped to 0..100 by \<open>clampInt\<close>.
\<close>

lemma tier_buildRoutingDecision:
  "tier (buildRoutingDecision cfg cm params) =
     (let complexity = int (scorePromptComplexity cm (latestUserMessage params) (tools params));
          sensitivity = clampInt (routingSensitivity (settings params)) 0 100;
          toolingThreshold = spec_clamp (9 - sensitivity div 20) 4 9;
          heavyThreshold = spec_clamp (17 - sensitivity div 10) 7 17
      in if complexity \<ge> heavyThreshold - (if deepSearchEnabled (tools params) then 2 else 0)
         then Heavy
         else if webSearchEnabled (tools params) \<or> deepSearchEnabled (tools params)
                 \<or> attachmentCount (tools params) > 0 \<or> complexity \<ge> toolingThreshold
         then Tooling
         else Light)"
proof -
  have a: "clampInt (Num (real_of_int k)) 4 9 = spec_clamp k 4 9" for k
    by (rule clampInt_eq_spec_clamp) simp
  have b: "clampInt (Num (real_of_int k)) 7 17 = spec_clamp k 7 17" for k
    by (rule clampInt_eq_spec_clamp) simp
  show ?thesis
    unfolding buildRoutingDecision_def Let_def Math_floor_div20 Math_floor_div10 a b
    by (simp only: RoutingDecision.select_convs disj_assoc)
qed

text \<open>
  Claim C2. For every prompt, every triple of tool signals and every integer sensitivity
  \<open>s\<close> from 0 to 100, the tier of the routing decision is the one the specification
  words: heavy when the complexity reaches \<open>clamp(17 - floor(s/10), 7, 17)\<close> less 2 under
  deep search; otherwise tooling when a tool signal is present or the complexity reaches
  \<open>clamp(9 - floor(s/20), 4, 9)\<close>; otherwise light.
\<close>

theorem C2_routing_tier:
  assumes "0 \<le> s" and "s \<le> 100"
  shows "tier (buildRoutingDecision cfg cm
           \<lparr>latestUserMessage = prompt, selectedModel = sel, tools = sg,
            settings = \<lparr>routingSensitivity = Num (of_int s), historyCompression = hc\<rparr>\<rparr>)
         = spec_tier (int (scorePromptComplexity cm prompt sg)) sg s"
proof -
  have "clampInt (Num (of_int s)) 0 100 = s"
    using assms by simp
  moreover have "\<lfloor>real_of_int s / 20\<rfloor> = s div 20"
    using floor_divide_of_int_eq[of s 20] by simp
  moreover have "\<lfloor>real_of_int s / 10\<rfloor> = s div 10"
    using floor_divide_of_int_eq[of s 10] by simp
  ultimately show ?thesis
    by (simp add: tier_buildRoutingDecision spec_tier_def spec_toolingThreshold_def
        spec_heavyThreshold_def Let_def del: clampInt.simps)
qed

text \<open>
  Witness of C2: the prompt \<open>hi\<close> with no tool signal at sensitivity 55 is routed to the
  light tier (complexity 0 against the thresholds 7 and 12).
\<close>

theorem C2_routing_tier_witness:
  "(0::int) \<le> 55 \<and> (55::int) \<le> 100
   \<and> tier (buildRoutingDecision default_config (\<lambda>input pattern. 0)
        \<lparr>latestUserMessage = ''hi'', selectedModel = DEFAULT_MODEL,
         tools = \<lparr>webSearchEnabled = False, deepSearchEnabled = False, attachmentCount = 0\<rparr>,
         settings = \<lparr>routingSensitivity = Num (of_int 55), historyCompression = Num 50\<rparr>\<rparr>) = Light"
proof -
  have "scorePromptComplexity (\<lambda>input pattern. 0) ''hi''
          \<lparr>webSearchEnabled = False, deepSearchEnabled = False, attachmentCount = 0\<rparr> = 0"
    by (simp add: scorePromptComplexity_def scorePromptLength_def scoreInstructionComplexity_def
        scoreToolComplexity_def trim_def isWhitespace_def toLowerCase_def toLowerCase_char_def
        countChar_def Let_def)
  then show ?thesis
    using C2_routing_tier[of 55 default_config "\<lambda>input pattern. 0" "''hi''" DEFAULT_MODEL
        "\<lparr>webSearchEnabled = False, deepSearchEnabled = False, attachmentCount = 0\<rparr>" "Num 50"]
    by (simp add: spec_tier_def spec_heavyThreshold_def spec_toolingThreshold_def spec_clamp_def)
qed

text \<open>
  Claim C5. For a fixed prompt and fixed tool signals the heavy tier is monotone in the
  routing sensitivity: when the decision is heavy at a sensitivity \<open>s\<close>, it is heavy at
  every sensitivity \<open>s'\<close> with \<open>s \<le> s'\<close>. Proved for all finite sensitivities, which
  covers the integers from 0 to 100; the history compression setting plays no part.
\<close>

theorem C5_heavy_monotone:
  assumes "s \<le> s'"
    and "tier (buildRoutingDecision cfg cm
           \<lparr>latestUserMessage = prompt, selectedModel = sel, tools = sg,
            settings = \<lparr>routingSensitivity = Num s, historyCompression = hc\<rparr>\<rparr>) = Heavy"
  shows "tier (buildRoutingDecision cfg cm
           \<lparr>latestUserMessage = prompt, selectedModel = sel, tools = sg,
            settings = \<lparr>routingSensitivity = Num s', historyCompression = hc'\<rparr>\<rparr>) = Heavy"
proof -
  let ?a = "clampInt (Num s) 0 100" and ?b = "clampInt (Num s') 0 100"
  have "?a \<le> ?b" using assms(1) by (rule clampInt_mono) simp
  then have "?a div 10 \<le> ?b div 10" by (rule zdiv_mono1) simp
  then have "spec_clamp (17 - ?b div 10) 7 17 \<le> spec_clamp (17 - ?a div 10) 7 17"
    by (intro spec_clamp_mono) simp
  then show ?thesis
    using assms(2)
    by (simp add: tier_buildRoutingDecision Let_def del: clampInt.simps split: if_splits)
qed

text \<open>
  Witness of C5: with web search, deep search and four attachments the prompt \<open>hi\<close> has
  complexity 9, which is heavy at sensitivity 60 (threshold 11 - 2) and so at 100.
\<close>

theorem C5_heavy_monotone_witness:
  "(60::real) \<le> 100
   \<and> tier (buildRoutingDecision default_config (\<lambda>input pattern. 0)
        \<lparr>latestUserMessage = ''hi'', selectedModel = DEFAULT_MODEL,
         tools = \<lparr>webSearchEnabled = True, deepSearchEnabled = True, attachmentCount = 4\<rparr>,
         settings = \<lparr>routingSensitivity = Num 60, historyCompression = Num 50\<rparr>\<rparr>) = Heavy
   \<and> tier (buildRoutingDecision default_config (\<lambda>input pattern. 0)
        \<lparr>latestUserMessage = ''hi'', selectedModel = DEFAULT_MODEL,
         tools = \<lparr>webSearchEnabled = True, deepSearchEnabled = True, attachmentCount = 4\<rparr>,
         settings = \<lparr>routingSensitivity = Num 100, historyCompression = Num 50\<rparr>\<rparr>) = Heavy"
proof -
  have c: "scorePromptComplexity (\<lambda>input pattern. 0) ''hi''
          \<lparr>webSearchEnabled = True, deepSearchEnabled = True, attachmentCount = 4\<rparr> = 9"
    by (simp add: scorePromptComplexity_def scorePromptLength_def scoreInstructionComplexity_def
        scoreToolComplexity_def trim_def isWhitespace_def toLowerCase_def toLowerCase_char_def
        countChar_def Let_def)
  have s: "clampInt (Num 60) 0 100 = 60" by (simp add: Math_round_def)
  have h: "tier (buildRoutingDecision default_config (\<lambda>input pattern. 0)
        \<lparr>latestUserMessage = ''hi'', selectedModel = DEFAULT_MODEL,
         tools = \<lparr>webSearchEnabled = True, deepSearchEnabled = True, attachmentCount = 4\<rparr>,
         settings = \<lparr>routingSensitivity = Num 60, historyCompression = Num 50\<rparr>\<rparr>) = Heavy"
    by (simp add: tier_buildRoutingDecision Let_def c s spec_clamp_def del: clampInt.simps)
  have le: "(60::real) \<le> 100" by simp
  show ?thesis
    using C5_heavy_monotone[OF le h, of "Num 50"] h by simp
qed

subsection \<open>History compression\<close>

text \<open>
  Claim C6. For every integer compression \<open>c\<close> from 0 to 100 and every tier,
  \<open>computeHistoryCompression\<close> returns the parameters of the specification: from the base
  window \<open>24 - round(18 c / 100)\<close> and the base summary budget \<open>4200 - round(3300 c / 100)\<close>,
  the light tier takes 2 messages and 350 characters off, the heavy tier adds 3 messages
  and 550 characters, the tooling tier keeps the base, and every result is clamped to
  6..24 messages and 900..4200 characters.
\<close>

theorem C6_history_parameters:
  assumes "0 \<le> c" and "c \<le> 100"
  shows "computeHistoryCompression t (Num (of_int c)) = spec_history t c"
proof -
  have c: "clampInt (Num (of_int c)) 0 100 = c"
    using assms by simp
  have w: "Math_round (real_of_int ((MAX_HISTORY_WINDOW_MESSAGES - MIN_HISTORY_WINDOW_MESSAGES) * c) / 100)
           = round (18 * real_of_int c / 100)"
    by (simp add: Math_round_def round_def MIN_HISTORY_WINDOW_MESSAGES_def
        MAX_HISTORY_WINDOW_MESSAGES_def)
  have b: "Math_round (real_of_int ((MAX_HISTORY_SUMMARY_CHARS - MIN_HISTORY_SUMMARY_CHARS) * c) / 100)
           = round (3300 * real_of_int c / 100)"
    by (simp add: Math_round_def round_def MIN_HISTORY_SUMMARY_CHARS_def
        MAX_HISTORY_SUMMARY_CHARS_def)
  have kw: "clampInt (Num (real_of_int k)) MIN_HISTORY_WINDOW_MESSAGES MAX_HISTORY_WINDOW_MESSAGES
            = spec_clamp k 6 24" for k
    unfolding MIN_HISTORY_WINDOW_MESSAGES_def MAX_HISTORY_WINDOW_MESSAGES_def
    by (rule clampInt_eq_spec_clamp) simp
  have ks: "clampInt (Num (real_of_int k)) MIN_HISTORY_SUMMARY_CHARS MAX_HISTORY_SUMMARY_CHARS
            = spec_clamp k 900 4200" for k
    unfolding MIN_HISTORY_SUMMARY_CHARS_def MAX_HISTORY_SUMMARY_CHARS_def
    by (rule clampInt_eq_spec_clamp) simp
  show ?thesis
    unfolding computeHistoryCompression_def c Let_def w b kw ks
    unfolding spec_history_def spec_baseWindow_def spec_baseSummary_def
      MAX_HISTORY_WINDOW_MESSAGES_def MAX_HISTORY_SUMMARY_CHARS_def
    by (cases t) simp_all
qed

text \<open>
  Witness of C6: at compression 25 the base window is \<open>24 - round(4.5) = 19\<close> and the base
  budget \<open>4200 - 825 = 3375\<close>; the light tier gets 17 messages and 3025 characters.
\<close>

theorem C6_history_parameters_witness:
  "(0::int) \<le> 25 \<and> (25::int) \<le> 100
   \<and> computeHistoryCompression Light (Num (of_int 25))
       = \<lparr>hp_historyWindowMessages = 17, hp_historySummaryMaxChars = 3025\<rparr>"
  using C6_history_parameters[of 25 Light]
  by (simp add: spec_history_def spec_baseWindow_def spec_baseSummary_def spec_clamp_def round_def)

subsection \<open>The deep-search scenario\<close>

lemma of_char_toLowerCase_char:
  "(of_char (toLowerCase_char c) :: nat) =
     (let n = of_char c in
      if (65 \<le> n \<and> n \<le> 90) \<or> (192 \<le> n \<and> n \<le> 222 \<and> n \<noteq> 215) then n + 32 else n)"
  by (auto simp: toLowerCase_char_def Let_def)

lemma toLowerCase_char_eq_LF [simp]: "toLowerCase_char c = CHR 0x0A \<longleftrightarrow> c = CHR 0x0A"
proof -
  have "toLowerCase_char c = CHR 0x0A
        \<longleftrightarrow> (of_char (toLowerCase_char c) :: nat) = of_char (CHR 0x0A)"
    by (simp only: of_char_eq_iff)
  also have "\<dots> \<longleftrightarrow> (of_char c :: nat) = of_char (CHR 0x0A)"
    by (auto simp: of_char_toLowerCase_char Let_def)
  also have "\<dots> \<longleftrightarrow> c = CHR 0x0A"
    by (simp only: of_char_eq_iff)
  finally show ?thesis .
qed

lemma toLowerCase_char_eq_qm [simp]: "toLowerCase_char c = CHR ''?'' \<longleftrightarrow> c = CHR ''?''"
proof -
  have "toLowerCase_char c = CHR ''?''
        \<longleftrightarrow> (of_char (toLowerCase_char c) :: nat) = of_char (CHR ''?'')"
    by (simp only: of_char_eq_iff)
  also have "\<dots> \<longleftrightarrow> (of_char c :: nat) = of_char (CHR ''?'')"
    by (auto simp: of_char_toLowerCase_char Let_def)
  also have "\<dots> \<longleftrightarrow> c = CHR ''?''"
    by (simp only: of_char_eq_iff)
  finally show ?thesis .
qed

lemma countChar_toLowerCase_LF [simp]:
  "countChar (toLowerCase s) (CHR 0x0A) = countChar s (CHR 0x0A)"
  by (induction s) (simp_all add: countChar_def toLowerCase_def)

lemma countChar_toLowerCase_qm [simp]:
  "countChar (toLowerCase s) (CHR ''?'') = countChar s (CHR ''?'')"
  by (induction s) (simp_all add: countChar_def toLowerCase_def)

lemma length_toLowerCase [simp]: "length (toLowerCase s) = length s"
  by (simp add: toLowerCase_def)

lemma scoreToolComplexity_deep_only:
  "scoreToolComplexity
     \<lparr>webSearchEnabled = False, deepSearchEnabled = True, attachmentCount = 0\<rparr> = 3"
  by (simp add: scoreToolComplexity_def)

lemma scoreToolComplexity_le_9: "scoreToolComplexity sg \<le> 9"
  by (simp add: scoreToolComplexity_def)

lemma scorePromptLength_ge7:
  assumes "trim prompt = prompt" and "length prompt = 1500"
    and "countChar prompt (CHR 0x0A) = 5" and "countChar prompt (CHR ''?'') = 2"
  shows "7 \<le> scorePromptLength prompt"
proof -
  have "toLowerCase prompt \<noteq> []" using assms(2) by (auto simp: toLowerCase_def)
  then show ?thesis
    using assms by (simp add: scorePromptLength_def Let_def)
qed

lemma splitWords_no_whitespace:
  "list_all (\<lambda>c. \<not> isWhitespace c) xs \<Longrightarrow>
   splitWords acc xs = (if acc = [] \<and> xs = [] then [] else [rev acc @ xs])"
  by (induction xs arbitrary: acc) auto

lemma trim_append_whitespace:
  assumes "xs \<noteq> []" and "\<not> isWhitespace (hd xs)" and "\<not> isWhitespace (last xs)"
    and "list_all isWhitespace ws"
  shows "trim (xs @ ws) = xs"
proof -
  have 1: "dropWhile isWhitespace (xs @ ws) = xs @ ws"
    using assms(1,2) by (cases xs) auto
  have 2: "dropWhile isWhitespace (rev ws @ rev xs) = dropWhile isWhitespace (rev xs)"
    using assms(4) by (intro dropWhile_append2) (auto simp: list_all_iff)
  have 3: "dropWhile isWhitespace (rev xs) = rev xs"
    using assms(1,3) by (cases xs rule: rev_cases) auto
  show ?thesis by (simp add: trim_def 1 2 3)
qed

lemma trim_id:
  assumes "xs \<noteq> []" and "\<not> isWhitespace (hd xs)" and "\<not> isWhitespace (last xs)"
  shows "trim xs = xs"
  using trim_append_whitespace[OF assms, of "[]"] by simp

lemma trim_untrimmed_prompt: "trim untrimmed_prompt = replicate 1493 (CHR ''a'') @ ''??''"
proof -
  have "trim ((replicate 1493 (CHR ''a'') @ ''??'') @ replicate 5 (CHR 0x0A))
        = replicate 1493 (CHR ''a'') @ ''??''"
    by (rule trim_append_whitespace) (simp_all add: isWhitespace_def hd_append list_all_iff)
  then show ?thesis by (simp add: untrimmed_prompt_def)
qed

lemma toLowerCase_a:
  "toLowerCase (replicate n (CHR ''a'') @ ''??'') = replicate n (CHR ''a'') @ ''??''"
  by (simp add: toLowerCase_def toLowerCase_char_def)

text \<open>
  Claim C8, as amended. For a prompt of 1500 characters with 5 line feeds and 2 question
  marks that has no white space at either end (so that \<open>trim\<close> leaves it as it is), with
  deep search on, web search off and no attachment, at sensitivity 55: the length score is
  at least 7 (four length thresholds, two newline thresholds, one question threshold),
  the tool score is exactly 3, and the tier is heavy, whatever the instruction score is:
  the complexity is at least 10, the heavy threshold 12 less the deep-search bias 2.
\<close>

theorem C8_scenario:
  assumes "trim prompt = prompt" and "length prompt = 1500"
    and "countChar prompt (CHR 0x0A) = 5" and "countChar prompt (CHR ''?'') = 2"
  shows "7 \<le> scorePromptLength prompt
       \<and> scoreToolComplexity
           \<lparr>webSearchEnabled = False, deepSearchEnabled = True, attachmentCount = 0\<rparr> = 3
       \<and> tier (buildRoutingDecision cfg cm
           \<lparr>latestUserMessage = prompt, selectedModel = sel,
            tools = \<lparr>webSearchEnabled = False, deepSearchEnabled = True, attachmentCount = 0\<rparr>,
            settings = \<lparr>routingSensitivity = Num 55, historyCompression = hc\<rparr>\<rparr>) = Heavy"
proof -
  let ?sg = "\<lparr>webSearchEnabled = False, deepSearchEnabled = True, attachmentCount = 0\<rparr>"
  have len: "7 \<le> scorePromptLength prompt" using assms by (rule scorePromptLength_ge7)
  have ne: "trim prompt \<noteq> []" using assms(1,2) by auto
  have "10 \<le> scorePromptComplexity cm prompt ?sg"
    using len ne by (simp add: scorePromptComplexity_def scoreToolComplexity_deep_only)
  moreover have "clampInt (Num 55) 0 100 = 55" by (simp add: Math_round_def)
  ultimately have "tier (buildRoutingDecision cfg cm
           \<lparr>latestUserMessage = prompt, selectedModel = sel, tools = ?sg,
            settings = \<lparr>routingSensitivity = Num 55, historyCompression = hc\<rparr>\<rparr>) = Heavy"
    by (simp add: tier_buildRoutingDecision Let_def spec_clamp_def del: clampInt.simps)
  with len show ?thesis by (simp add: scoreToolComplexity_deep_only)
qed

text \<open>
  Witness of C8: \<open>scenario_prompt\<close> meets the four hypotheses and is routed to the heavy
  tier.
\<close>

theorem C8_scenario_witness:
  "trim scenario_prompt = scenario_prompt \<and> length scenario_prompt = 1500
   \<and> countChar scenario_prompt (CHR 0x0A) = 5 \<and> countChar scenario_prompt (CHR ''?'') = 2
   \<and> 7 \<le> scorePromptLength scenario_prompt
   \<and> tier (buildRoutingDecision default_config (\<lambda>input pattern. 0)
           \<lparr>latestUserMessage = scenario_prompt, selectedModel = DEFAULT_MODEL,
            tools = \<lparr>webSearchEnabled = False, deepSearchEnabled = True, attachmentCount = 0\<rparr>,
            settings = \<lparr>routingSensitivity = Num 55, historyCompression = Num 50\<rparr>\<rparr>) = Heavy"
proof -
  have t: "trim scenario_prompt = scenario_prompt"
    by (rule trim_id) (simp_all add: scenario_prompt_def isWhitespace_def hd_append)
  have l: "length scenario_prompt = 1500" by (simp add: scenario_prompt_def)
  have n: "countChar scenario_prompt (CHR 0x0A) = 5"
    by (simp add: scenario_prompt_def countChar_def)
  have q: "countChar scenario_prompt (CHR ''?'') = 2"
    by (simp add: scenario_prompt_def countChar_def)
  show ?thesis
    using C8_scenario[OF t l n q, of default_config "\<lambda>input pattern. 0" DEFAULT_MODEL "Num 50"]
      t l n q
    by simp
qed

text \<open>
  Counterexample to C8 as stated. The tool score of deep search alone is 3, not at least
  5: \<open>scoreToolComplexity\<close> adds 3 for deep search and nothing else here. And a prompt of
  1500 characters with 5 line feeds and 2 question marks whose line feeds end the text
  has length score 5, not at least 6: \<open>scorePromptLength\<close> trims the prompt before it
  counts.
\<close>

theorem C8_counterexample:
  "length untrimmed_prompt = 1500
   \<and> countChar untrimmed_prompt (CHR 0x0A) = 5
   \<and> countChar untrimmed_prompt (CHR ''?'') = 2
   \<and> scorePromptLength untrimmed_prompt = 5
   \<and> scoreToolComplexity
       \<lparr>webSearchEnabled = False, deepSearchEnabled = True, attachmentCount = 0\<rparr> = 3"
proof -
  have w: "splitWords [] (replicate 1493 (CHR ''a'') @ ''??'')
           = [replicate 1493 (CHR ''a'') @ ''??'']"
    by (subst splitWords_no_whitespace) (simp_all add: list_all_iff isWhitespace_def)
  have "scorePromptLength untrimmed_prompt = 5"
    by (simp add: scorePromptLength_def trim_untrimmed_prompt toLowerCase_a w countChar_def Let_def)
  moreover have "length untrimmed_prompt = 1500"
    by (simp add: untrimmed_prompt_def)
  moreover have "countChar untrimmed_prompt (CHR 0x0A) = 5"
    by (simp add: untrimmed_prompt_def countChar_def)
  moreover have "countChar untrimmed_prompt (CHR ''?'') = 2"
    by (simp add: untrimmed_prompt_def countChar_def)
  ultimately show ?thesis by (simp add: scoreToolComplexity_deep_only)
qed

section \<open>Verification: attachment signatures\<close>

subsection \<open>The UTF-8 decoder on ASCII text\<close>

text \<open>
  A decoded string without a code unit from U+0080 on and as long as its input was decoded
  from ASCII bytes only, one code unit for each byte: every other byte either yields a
  code unit from U+0080 on or shortens the output.
\<close>

lemma utf8_units_bound:
  "(\<exists>u \<in> set (utf8_units cp). 0x80 \<le> u) \<or> length (utf8_units cp) \<le> 1"
  by (simp add: utf8_units_def)

lemma utf8_lead_cases:
  "utf8_lead b = ([b], Start) \<and> b < 0x80
   \<or> (\<exists>cp n lo hi. utf8_lead b = ([], Pending cp n lo hi)) \<and> 0x80 \<le> b
   \<or> utf8_lead b = ([0xFFFD], Start) \<and> 0x80 \<le> b"
  by (auto simp: utf8_lead_def)

lemma utf8_decode_length:
  "(\<exists>u \<in> set (utf8_decode st ns). 0x80 \<le> u) \<or> length (utf8_decode st ns) \<le> length ns"
proof (induction st ns rule: utf8_decode.induct)
  case 1
  then show ?case by simp
next
  case (2 cp n lo hi)
  then show ?case by simp
next
  case (3 b bs)
  obtain out st where l: "utf8_lead b = (out, st)" by (cases "utf8_lead b")
  from 3[OF l[symmetric]] have ih:
    "(\<exists>u \<in> set (utf8_decode st bs). 0x80 \<le> u) \<or> length (utf8_decode st bs) \<le> length bs" .
  from utf8_lead_cases[of b] l have "out = [b] \<or> out = [] \<or> out = [0xFFFD]" by auto
  with ih show ?case by (auto simp: l)
next
  case (4 cp n lo hi b bs)
  show ?case
  proof (cases "b < lo \<or> hi < b")
    case True
    then show ?thesis by (auto split: prod.splits)
  next
    case False
    show ?thesis
    proof (cases "n \<le> 1")
      case True
      from 4(2)[OF False refl True]
      have ih: "(\<exists>u \<in> set (utf8_decode Start bs). 0x80 \<le> u)
                \<or> length (utf8_decode Start bs) \<le> length bs" .
      with utf8_units_bound[of "cp * 64 + b mod 64"] False True show ?thesis
        by (auto simp: Let_def)
    next
      case n: False
      from 4(3)[OF False refl n]
      have "(\<exists>u \<in> set (utf8_decode (Pending (cp * 64 + b mod 64) (n - 1) 0x80 0xBF) bs). 0x80 \<le> u)
            \<or> length (utf8_decode (Pending (cp * 64 + b mod 64) (n - 1) 0x80 0xBF) bs) \<le> length bs" .
      with False n show ?thesis by (auto simp: Let_def)
    qed
  qed
qed

lemma utf8_decode_ascii_only:
  "(\<exists>u \<in> set (utf8_decode Start ns). 0x80 \<le> u)
   \<or> length (utf8_decode Start ns) < length ns
   \<or> utf8_decode Start ns = ns"
proof (induction ns)
  case Nil
  then show ?case by simp
next
  case (Cons b bs)
  from utf8_lead_cases[of b] show ?case
  proof (elim disjE conjE exE)
    assume "utf8_lead b = ([b], Start)" "b < 0x80"
    with Cons show ?thesis by auto
  next
    fix cp n lo hi
    assume l: "utf8_lead b = ([], Pending cp n lo hi)"
    from utf8_decode_length[of "Pending cp n lo hi" bs] l show ?thesis by auto
  next
    assume "utf8_lead b = ([0xFFFD], Start)"
    then show ?thesis by simp
  qed
qed

lemma utf8_decode_ascii: "list_all (\<lambda>b. b < 0x80) ns \<Longrightarrow> utf8_decode Start ns = ns"
  by (induction ns) (simp_all add: utf8_lead_def)

lemma toString_utf8_eq_ascii_iff:
  assumes "list_all (\<lambda>u. u < 0x80) us" and "length buf = length us"
  shows "toString_utf8 buf = us \<longleftrightarrow> map unat buf = us"
proof
  assume e: "toString_utf8 buf = us"
  from assms(1) have "\<not> (\<exists>u \<in> set us. 0x80 \<le> u)" by (auto simp: list_all_iff)
  with utf8_decode_ascii_only[of "map unat buf"] e assms(2) show "map unat buf = us"
    by (auto simp: toString_utf8_def)
next
  assume "map unat buf = us"
  with assms(1) utf8_decode_ascii[of "map unat buf"] show "toString_utf8 buf = us"
    by (simp add: toString_utf8_def)
qed

lemma inj_unat_byte: "inj (unat :: byte \<Rightarrow> nat)"
  by (rule injI) (simp add: word_unat_eq_iff)

lemma map_unat_eq_iff: "map unat (xs :: Buffer) = map unat ys \<longleftrightarrow> xs = ys"
  by (rule inj_map_eq_map[OF inj_unat_byte])

lemma pdf_test:
  "length d \<ge> 5 \<and> toString_utf8 (subarray d 0 5) = str ''%PDF-'' \<longleftrightarrow> take 5 d = PDF_SIGNATURE"
proof (cases "length d \<ge> 5")
  case True
  have m: "map unat (take 5 d) = [37, 80, 68, 70, 45] \<longleftrightarrow> take 5 d = PDF_SIGNATURE"
  proof
    assume "map unat (take 5 d) = [37, 80, 68, 70, 45]"
    then have "map unat (take 5 d) = map unat PDF_SIGNATURE" by (simp add: PDF_SIGNATURE_def)
    then show "take 5 d = PDF_SIGNATURE" by (simp only: map_unat_eq_iff)
  next
    assume "take 5 d = PDF_SIGNATURE"
    then show "map unat (take 5 d) = [37, 80, 68, 70, 45]" by (simp add: PDF_SIGNATURE_def)
  qed
  have "toString_utf8 (take 5 d) = [37, 80, 68, 70, 45] \<longleftrightarrow> map unat (take 5 d) = [37, 80, 68, 70, 45]"
    using True by (intro toString_utf8_eq_ascii_iff) simp_all
  with True m show ?thesis by (simp add: subarray_def str_def)
next
  case False
  then have "length (take 5 d) \<noteq> length PDF_SIGNATURE" by (simp add: PDF_SIGNATURE_def)
  then have "take 5 d \<noteq> PDF_SIGNATURE" by metis
  with False show ?thesis by simp
qed

lemma take_eq_iff_nth:
  "take (length sig) d = sig \<longleftrightarrow> length sig \<le> length d \<and> (\<forall>i < length sig. d ! i = sig ! i)"
  by (auto simp: list_eq_iff_nth_eq)

lemma png_test:
  "length d \<ge> 8 \<and> d ! 0 = 0x89 \<and> d ! 1 = 0x50 \<and> d ! 2 = 0x4e \<and> d ! 3 = 0x47 \<and> d ! 4 = 0x0d
   \<and> d ! 5 = 0x0a \<and> d ! 6 = 0x1a \<and> d ! 7 = 0x0a \<longleftrightarrow> take 8 d = PNG_SIGNATURE"
proof -
  have len: "length PNG_SIGNATURE = 8" by (simp add: PNG_SIGNATURE_def)
  have "take 8 d = PNG_SIGNATURE \<longleftrightarrow> 8 \<le> length d \<and> (\<forall>i < 8. d ! i = PNG_SIGNATURE ! i)"
    using take_eq_iff_nth[of PNG_SIGNATURE d] unfolding len .
  also have "(\<forall>i < 8. d ! i = PNG_SIGNATURE ! i) \<longleftrightarrow>
     d ! 0 = 0x89 \<and> d ! 1 = 0x50 \<and> d ! 2 = 0x4e \<and> d ! 3 = 0x47 \<and> d ! 4 = 0x0d
     \<and> d ! 5 = 0x0a \<and> d ! 6 = 0x1a \<and> d ! 7 = 0x0a"
    by (simp add: PNG_SIGNATURE_def eval_nat_numeral All_less_Suc conj_ac)
  finally show ?thesis by simp
qed

lemma jpeg_test:
  "length d \<ge> 3 \<and> d ! 0 = 0xff \<and> d ! 1 = 0xd8 \<and> d ! 2 = 0xff \<longleftrightarrow> take 3 d = JPEG_SIGNATURE"
proof -
  have len: "length JPEG_SIGNATURE = 3" by (simp add: JPEG_SIGNATURE_def)
  have "take 3 d = JPEG_SIGNATURE \<longleftrightarrow> 3 \<le> length d \<and> (\<forall>i < 3. d ! i = JPEG_SIGNATURE ! i)"
    using take_eq_iff_nth[of JPEG_SIGNATURE d] unfolding len .
  also have "(\<forall>i < 3. d ! i = JPEG_SIGNATURE ! i) \<longleftrightarrow> d ! 0 = 0xff \<and> d ! 1 = 0xd8 \<and> d ! 2 = 0xff"
    by (simp add: JPEG_SIGNATURE_def eval_nat_numeral All_less_Suc conj_ac)
  finally show ?thesis by simp
qed

lemma toString_ascii_eq_iff:
  "toString_ascii buf = map unat sig \<longleftrightarrow> clearHighBits buf = sig"
proof -
  have "toString_ascii buf = map unat (clearHighBits buf)"
    by (simp add: toString_ascii_def clearHighBits_def)
  then show ?thesis
    by (simp only: map_unat_eq_iff)
qed

lemma webp_test:
  "toString_ascii (subarray d 0 4) = str ''RIFF'' \<and> toString_ascii (subarray d 8 12) = str ''WEBP''
   \<longleftrightarrow> clearHighBits (take 4 d) = RIFF_TAG \<and> clearHighBits (take 4 (drop 8 d)) = WEBP_TAG"
proof -
  have r: "str ''RIFF'' = map unat RIFF_TAG"
    by (simp add: str_def RIFF_TAG_def)
  have w: "str ''WEBP'' = map unat WEBP_TAG"
    by (simp add: str_def WEBP_TAG_def)
  have s1: "subarray d 0 4 = take 4 d"
    by (simp add: subarray_def)
  have s2: "subarray d 8 12 = take 4 (drop 8 d)"
    by (simp add: subarray_def)
  show ?thesis
    unfolding r w s1 s2 toString_ascii_eq_iff ..
qed

lemma w_test:
  "(length d \<ge> 12 \<and> toString_ascii (subarray d 0 4) = str ''RIFF''
      \<and> toString_ascii (subarray d 8 12) = str ''WEBP'')
   = (length d \<ge> 12 \<and> clearHighBits (take 4 d) = RIFF_TAG
      \<and> clearHighBits (take 4 (drop 8 d)) = WEBP_TAG)"
  by (rule arg_cong[where f="(\<and>) (12 \<le> length d)"], rule webp_test)

text \<open>
  What \<open>detectMimeFromBinary\<close> computes, in terms of the bytes alone. The PDF, PNG and
  JPEG tests compare bytes exactly. The WEBP test compares bytes 0 to 3 and 8 to 11 after
  clearing the highest bit of each.
\<close>

lemma detectMimeFromBinary_signatures:
  "detectMimeFromBinary d =
     (if take 5 d = PDF_SIGNATURE then Some ''application/pdf''
      else if take 8 d = PNG_SIGNATURE then Some ''image/png''
      else if take 3 d = JPEG_SIGNATURE then Some ''image/jpeg''
      else if length d \<ge> 12 \<and> clearHighBits (take 4 d) = RIFF_TAG
              \<and> clearHighBits (take 4 (drop 8 d)) = WEBP_TAG then Some ''image/webp''
      else None)"
  apply (subst detectMimeFromBinary_def)
  apply (subst pdf_test)
  apply (subst png_test)
  apply (subst jpeg_test)
  apply (subst w_test)
  apply (rule refl)
  done

lemma detectMimeFromBinary_pdf:
  "take 5 d = PDF_SIGNATURE \<Longrightarrow> detectMimeFromBinary d = Some ''application/pdf''"
  by (simp add: detectMimeFromBinary_signatures)

lemma hd_take_eq: "take (Suc n) d = x # xs \<Longrightarrow> take (Suc m) d = y # ys \<Longrightarrow> x = y"
  by (cases d) auto

lemma detectMimeFromBinary_png:
  assumes "take 8 d = PNG_SIGNATURE"
  shows "detectMimeFromBinary d = Some ''image/png''"
proof -
  have "take 5 d \<noteq> PDF_SIGNATURE"
  proof
    assume "take 5 d = PDF_SIGNATURE"
    with assms have "(0x89 :: byte) = 0x25"
      using hd_take_eq[of 7 d "0x89" _ 4 "0x25"]
      by (simp add: PNG_SIGNATURE_def PDF_SIGNATURE_def eval_nat_numeral)
    then show False by simp
  qed
  with assms show ?thesis by (simp add: detectMimeFromBinary_signatures)
qed

lemma detectMimeFromBinary_jpeg:
  assumes "take 3 d = JPEG_SIGNATURE"
  shows "detectMimeFromBinary d = Some ''image/jpeg''"
proof -
  have "take 5 d \<noteq> PDF_SIGNATURE"
  proof
    assume "take 5 d = PDF_SIGNATURE"
    with assms have "(0xFF :: byte) = 0x25"
      using hd_take_eq[of 2 d "0xFF" _ 4 "0x25"]
      by (simp add: JPEG_SIGNATURE_def PDF_SIGNATURE_def eval_nat_numeral)
    then show False by simp
  qed
  moreover have "take 8 d \<noteq> PNG_SIGNATURE"
  proof
    assume "take 8 d = PNG_SIGNATURE"
    with assms have "(0xFF :: byte) = 0x89"
      using hd_take_eq[of 2 d "0xFF" _ 7 "0x89"]
      by (simp add: JPEG_SIGNATURE_def PNG_SIGNATURE_def eval_nat_numeral)
    then show False by simp
  qed
  ultimately show ?thesis using assms by (simp add: detectMimeFromBinary_signatures)
qed

lemma detectMimeFromBinary_webp:
  assumes "length d \<ge> 12" and "take 4 d = RIFF_TAG" and "take 4 (drop 8 d) = WEBP_TAG"
  shows "detectMimeFromBinary d = Some ''image/webp''"
proof -
  have "take 5 d \<noteq> PDF_SIGNATURE"
  proof
    assume "take 5 d = PDF_SIGNATURE"
    with assms(2) have "(0x52 :: byte) = 0x25"
      using hd_take_eq[of 3 d "0x52" _ 4 "0x25"]
      by (simp add: RIFF_TAG_def PDF_SIGNATURE_def eval_nat_numeral)
    then show False by simp
  qed
  moreover have "take 8 d \<noteq> PNG_SIGNATURE"
  proof
    assume "take 8 d = PNG_SIGNATURE"
    with assms(2) have "(0x52 :: byte) = 0x89"
      using hd_take_eq[of 3 d "0x52" _ 7 "0x89"]
      by (simp add: RIFF_TAG_def PNG_SIGNATURE_def eval_nat_numeral)
    then show False by simp
  qed
  moreover have "take 3 d \<noteq> JPEG_SIGNATURE"
  proof
    assume "take 3 d = JPEG_SIGNATURE"
    with assms(2) have "(0x52 :: byte) = 0xFF"
      using hd_take_eq[of 3 d "0x52" _ 2 "0xFF"]
      by (simp add: RIFF_TAG_def JPEG_SIGNATURE_def eval_nat_numeral)
    then show False by simp
  qed
  moreover have "clearHighBits RIFF_TAG = RIFF_TAG" "clearHighBits WEBP_TAG = WEBP_TAG"
    by (simp_all add: clearHighBits_def RIFF_TAG_def WEBP_TAG_def)
  ultimately show ?thesis using assms by (simp add: detectMimeFromBinary_signatures)
qed

text \<open>
  Claim C9 says that \<open>detectMimeFromBinary\<close> returns null for every buffer that matches
  none of the four signatures. The code does not: the buffer \<open>high_bit_riff\<close> starts with
  the byte D2, not with \<open>RIFF\<close> (52 49 46 46), and matches no PDF, PNG or JPEG signature,
  yet it is reported as \<open>image/webp\<close>, because the WEBP test reads the bytes through
  \<open>toString("ascii")\<close>, which clears the highest bit of D2 to 52. The PDF, PNG and JPEG
  tests and the WEBP test on buffers that do carry the header are as the claim says
  (\<open>detectMimeFromBinary_pdf\<close>, \<open>detectMimeFromBinary_png\<close>, \<open>detectMimeFromBinary_jpeg\<close>,
  \<open>detectMimeFromBinary_webp\<close>).
\<close>

theorem C9_high_bit_riff_detected_as_webp:
  "detectMimeFromBinary high_bit_riff = Some ''image/webp''
   \<and> take 4 high_bit_riff \<noteq> RIFF_TAG
   \<and> take 5 high_bit_riff \<noteq> PDF_SIGNATURE
   \<and> take 8 high_bit_riff \<noteq> PNG_SIGNATURE
   \<and> take 3 high_bit_riff \<noteq> JPEG_SIGNATURE"
proof -
  have 1: "take 5 high_bit_riff \<noteq> PDF_SIGNATURE"
    by (simp add: high_bit_riff_def PDF_SIGNATURE_def)
  have 2: "take 8 high_bit_riff \<noteq> PNG_SIGNATURE"
    by (simp add: high_bit_riff_def PNG_SIGNATURE_def)
  have 3: "take 3 high_bit_riff \<noteq> JPEG_SIGNATURE"
    by (simp add: high_bit_riff_def JPEG_SIGNATURE_def)
  have 4: "take 4 high_bit_riff \<noteq> RIFF_TAG"
    by (simp add: high_bit_riff_def RIFF_TAG_def)
  have 5: "clearHighBits (take 4 high_bit_riff) = RIFF_TAG"
    by (simp add: high_bit_riff_def RIFF_TAG_def clearHighBits_def)
  have 6: "clearHighBits (take 4 (drop 8 high_bit_riff)) = WEBP_TAG"
    by (simp add: high_bit_riff_def WEBP_TAG_def clearHighBits_def)
  have 7: "length high_bit_riff \<ge> 12"
    by (simp add: high_bit_riff_def)
  have "detectMimeFromBinary high_bit_riff = Some ''image/webp''"
    unfolding detectMimeFromBinary_signatures using 1 2 3 5 6 7 by simp
  with 1 2 3 4 show ?thesis by simp
qed

section \<open>Verification: conversation store\<close>

declare natToString.simps [simp del]

declare bitLength.simps [simp del]

subsection \<open>Numbers read from decimal digits\<close>

lemma Number_parseInt_examples:
  "Number_parseInt ''12'' = Finite 12"
  "Number_parseInt ''9007199254740993'' = Finite 9007199254740992"
  "Number_parseInt ''12345678901234567890'' = Finite 12345678901234567168"
  by (simp_all add: Number_parseInt_def mathInt_def roundToDouble_def bitLength.simps Let_def)

subsection \<open>Merging by message id\<close>

lemma mergeLoop_append: "mergeLoop merged seen incoming = merged @ appendedById seen incoming"
  by (induction incoming arbitrary: merged seen) auto

lemma appendedById_distinct:
  "distinct (map msg_id incoming) \<Longrightarrow>
   appendedById seen incoming = filter (\<lambda>m. msg_id m \<notin> seen) incoming"
proof (induction incoming arbitrary: seen)
  case Nil
  then show ?case by simp
next
  case (Cons m ms)
  from Cons.prems have "msg_id m \<notin> msg_id ` set ms" by simp
  then have "\<forall>x \<in> set ms. msg_id x \<noteq> msg_id m"
    by (metis imageI)
  then have "filter (\<lambda>x. msg_id x \<notin> insert (msg_id m) seen) ms
             = filter (\<lambda>x. msg_id x \<notin> seen) ms"
    by (intro filter_cong) auto
  with Cons show ?case by simp
qed

lemma appendedById_ids_fresh: "set (map msg_id (appendedById seen incoming)) \<inter> seen = {}"
  by (induction incoming arbitrary: seen) auto

lemma appendedById_ids_distinct: "distinct (map msg_id (appendedById seen incoming))"
proof (induction incoming arbitrary: seen)
  case Nil
  then show ?case by simp
next
  case (Cons m ms)
  have "msg_id m \<notin> set (map msg_id (appendedById (insert (msg_id m) seen) ms))"
    using appendedById_ids_fresh[of "insert (msg_id m) seen" ms] by auto
  with Cons show ?case by simp
qed

lemma appendedById_covers:
  "set (map msg_id incoming) \<subseteq> seen \<union> set (map msg_id (appendedById seen incoming))"
proof (induction incoming arbitrary: seen)
  case Nil
  then show ?case by simp
next
  case (Cons m ms)
  from Cons[of seen] Cons[of "insert (msg_id m) seen"] show ?case by auto
qed

lemma appendedById_all_seen:
  "set (map msg_id incoming) \<subseteq> seen \<Longrightarrow> appendedById seen incoming = []"
  by (induction incoming arbitrary: seen) auto

lemma merge_keeps_existing:
  "take (length existing) (mergeStoredMessagesPreservingExisting existing incoming) = existing"
  by (simp add: mergeStoredMessagesPreservingExisting_def mergeLoop_append)

lemma merge_ids_cover:
  "set (map msg_id incoming)
   \<subseteq> set (map msg_id (mergeStoredMessagesPreservingExisting existing incoming))"
  using appendedById_covers[of incoming "set (map msg_id existing)"]
  by (auto simp: mergeStoredMessagesPreservingExisting_def mergeLoop_append)

lemma merge_idempotent:
  assumes "map msg_id incoming' = map msg_id incoming"
  shows "mergeStoredMessagesPreservingExisting
           (mergeStoredMessagesPreservingExisting existing incoming) incoming'
         = mergeStoredMessagesPreservingExisting existing incoming"
proof -
  let ?r = "mergeStoredMessagesPreservingExisting existing incoming"
  have cover: "set (map msg_id incoming') \<subseteq> set (map msg_id ?r)"
    using merge_ids_cover[of incoming existing] assms by simp
  show ?thesis
  proof (cases "?r = []")
    case True
    with cover have "incoming' = []" by simp
    with True show ?thesis by (simp add: mergeStoredMessagesPreservingExisting_def)
  next
    case False
    then show ?thesis
      using appendedById_all_seen[OF cover]
      by (simp add: mergeStoredMessagesPreservingExisting_def[of ?r] mergeLoop_append)
  qed
qed

lemma merge_distinct_ids:
  assumes "distinct (map msg_id existing)" and "distinct (map msg_id incoming)"
  shows "distinct (map msg_id (mergeStoredMessagesPreservingExisting existing incoming))"
  using assms appendedById_ids_distinct[of "set (map msg_id existing)" incoming]
    appendedById_ids_fresh[of "set (map msg_id existing)" incoming]
  by (auto simp: mergeStoredMessagesPreservingExisting_def mergeLoop_append)

lemma merge_by_id:
  assumes "distinct (map msg_id incoming)"
  shows "mergeStoredMessagesPreservingExisting existing incoming
         = existing @ filter (\<lambda>m. msg_id m \<notin> set (map msg_id existing)) incoming"
  using assms
  by (auto simp: mergeStoredMessagesPreservingExisting_def mergeLoop_append appendedById_distinct)

subsection \<open>Paths\<close>

lemma length_path_le: "length p \<le> length (dirname p) + 1 + length (basename p)"
proof -
  let ?P = "\<lambda>c. c \<noteq> CHR ''/''"
  have "length (takeWhile ?P (rev p)) + length (dropWhile ?P (rev p)) = length p"
    using takeWhile_dropWhile_id[of ?P "rev p"] by (metis length_append length_rev)
  then show ?thesis
    by (cases "dropWhile ?P (rev p)") (auto simp: dirname_def basename_def Let_def)
qed

lemma tempPath_neq: "tempPathOf pf p u \<noteq> p"
proof
  assume "tempPathOf pf p u = p"
  then have "length (tempPathOf pf p u) = length p" by simp
  with length_path_le[of p] show False
    by (simp add: tempPathOf_def pathJoin_def)
qed

lemma endsWith_append: "endsWith (xs @ suffix) suffix"
  by (simp add: endsWith_def)

lemma tempPath_ends: "endsWith (tempPathOf pf p u) ''.tmp''"
proof -
  have "tempPathOf pf p u
        = (dirname p @ ''/'' @ ''.'' @ basename p @ ''.'' @ pid pf @ ''.'' @ u) @ ''.tmp''"
    by (simp add: tempPathOf_def pathJoin_def)
  then show ?thesis by (simp only: endsWith_append)
qed

subsection \<open>The file system without faults\<close>

lemma map_of_fs_put: "map_of (fs_put p d files) q = (if q = p then Some d else map_of files q)"
  by (induction files) auto

lemma map_of_fs_del: "map_of (fs_del p files) q = (if q = p then None else map_of files q)"
  by (induction files) (auto simp: fs_del_def)

lemma takeFault_none [simp]: "faults w = [] \<Longrightarrow> takeFault w = (None, w)"
  by (simp add: takeFault_def)

lemma fs_mkdir_ok [simp]: "faults w = [] \<Longrightarrow> fs_mkdir d w = (Inr (), w)"
  by (simp add: fs_mkdir_def)

lemma fs_readFile_ok [simp]:
  "faults w = [] \<Longrightarrow>
   fs_readFile p w = (case map_of (fs w) p of None \<Rightarrow> (Inl ENOENT, w) | Some d \<Rightarrow> (Inr d, w))"
  by (simp add: fs_readFile_def)

lemma fs_writeFile_ok [simp]:
  "faults w = [] \<Longrightarrow> fs_writeFile p d w = (Inr (), w\<lparr>fs := fs_put p d (fs w)\<rparr>)"
  by (simp add: fs_writeFile_def)

lemma fs_rename_ok [simp]:
  "faults w = [] \<Longrightarrow>
   fs_rename src dst w =
     (case map_of (fs w) src of
        None \<Rightarrow> (Inl ENOENT, w)
      | Some d \<Rightarrow> (Inr (), w\<lparr>fs := fs_put dst d (fs_del src (fs w))\<rparr>))"
  by (simp add: fs_rename_def)

lemma fs_unlink_ok [simp]:
  "faults w = [] \<Longrightarrow>
   fs_unlink p w =
     (case map_of (fs w) p of
        None \<Rightarrow> (Inl ENOENT, w)
      | Some d \<Rightarrow> (Inr (), w\<lparr>fs := fs_del p (fs w)\<rparr>))"
  by (simp add: fs_unlink_def)

lemma fs_readdir_ok [simp]:
  "faults w = [] \<Longrightarrow>
   fs_readdir d w = (Inr (List.map_filter (\<lambda>entry. entryName d (fst entry)) (fs w)), w)"
  by (simp add: fs_readdir_def)

lemma atomicWriteJson_ok:
  "faults w = [] \<Longrightarrow> atomicWriteJson pf p d w = (Inr (), afterAtomicWrite pf p d w)"
  by (simp add: atomicWriteJson_def drawUUID_def Let_def map_of_fs_put afterAtomicWrite_def
      tempPathOf_def)

lemma afterAtomicWrite_simps [simp]:
  "faults (afterAtomicWrite pf p d w) = faults w"
  "clockReads (afterAtomicWrite pf p d w) = clockReads w"
  "uuidDraws (afterAtomicWrite pf p d w) = uuidDraws w + 1"
  "map_of (fs (afterAtomicWrite pf p d w)) p = Some d"
  by (simp_all add: afterAtomicWrite_def map_of_fs_put)

lemma afterAtomicWrite_other:
  "q \<noteq> p \<Longrightarrow> \<not> endsWith q ''.tmp'' \<Longrightarrow>
   map_of (fs (afterAtomicWrite pf p d w)) q = map_of (fs w) q"
  using tempPath_ends[of pf p "randomUUID pf (uuidDraws w)"]
  by (auto simp: afterAtomicWrite_def map_of_fs_put map_of_fs_del)

subsection \<open>Operations that only read the clock and draw identifiers\<close>

lemma nowISOString_eq:
  "nowISOString pf w = (toISOString pf (Date_now pf (clockReads w)), w\<lparr>clockReads := clockReads w + 1\<rparr>)"
  by (simp add: nowISOString_def readClock_def)

lemma createMessageId_eq:
  "createMessageId pf r w =
     (roleName r @ ''-'' @ natToString (Date_now pf (clockReads w)) @ ''-''
        @ take 8 (randomUUID pf (uuidDraws w)),
      w\<lparr>clockReads := clockReads w + 1, uuidDraws := uuidDraws w + 1\<rparr>)"
  by (simp add: createMessageId_def readClock_def drawUUID_def)

lemma toStoredMessage_frame:
  "fs (snd (toStoredMessage pf m w)) = fs w \<and> faults (snd (toStoredMessage pf m w)) = faults w"
  by (simp add: toStoredMessage_def nowISOString_eq createMessageId_eq Let_def
      split: option.splits)

lemma toStoredMessages_frame:
  "fs (snd (toStoredMessages pf ms w)) = fs w \<and> faults (snd (toStoredMessages pf ms w)) = faults w"
proof (induction ms arbitrary: w)
  case Nil
  then show ?case by simp
next
  case (Cons m ms)
  show ?case
    using toStoredMessage_frame[of pf m w] Cons[of "snd (toStoredMessage pf m w)"]
    by (auto split: prod.splits)
qed

lemma normalizeStoredMessages_frame:
  "fs (snd (normalizeStoredMessages pf ms w)) = fs w
   \<and> faults (snd (normalizeStoredMessages pf ms w)) = faults w"
proof (induction ms arbitrary: w)
  case Nil
  then show ?case by simp
next
  case (Cons m ms)
  show ?case
    using Cons[of w] Cons[of "snd (createMessageId pf (msg_role m) w)"]
    by (auto simp: createMessageId_eq split: prod.splits)
qed

lemma createConversationBundle_frame:
  "fs (snd (createConversationBundle pf c w)) = fs w
   \<and> faults (snd (createConversationBundle pf c w)) = faults w"
  by (simp add: createConversationBundle_def nowISOString_eq Let_def)

lemma createConversationBundle_fields:
  "stored_messages (bundle_messages (fst (createConversationBundle pf c w))) = []"
  "conv_id (conversation (fst (createConversationBundle pf c w))) = c"
  by (simp_all add: createConversationBundle_def nowISOString_eq Let_def)

lemma normalizeBundle_frame:
  "fs (snd (normalizeBundle pf raw c w)) = fs w \<and> faults (snd (normalizeBundle pf raw c w)) = faults w"
proof -
  obtain fb w1 where c: "createConversationBundle pf c w = (fb, w1)"
    by (cases "createConversationBundle pf c w")
  with createConversationBundle_frame[of pf c w] have w1: "fs w1 = fs w" "faults w1 = faults w"
    by simp_all
  show ?thesis
  proof (cases raw)
    case (BundleData parsed)
    with c w1 normalizeStoredMessages_frame[of pf "stored_messages (bundle_messages parsed)" w1]
    show ?thesis by (auto simp: normalizeBundle_def Let_def split: prod.splits)
  qed (use c w1 in \<open>simp_all add: normalizeBundle_def\<close>)
qed

lemma normalizeBundle_fields:
  "conv_id (conversation (fst (normalizeBundle pf raw c w))) = c"
  by (cases raw)
     (simp_all add: normalizeBundle_def createConversationBundle_def nowISOString_eq Let_def
        split: prod.splits)

lemma normalizeStoredMessages_wellFormed:
  "wellFormedMessages ms \<Longrightarrow> normalizeStoredMessages pf ms w = (ms, w)"
  by (induction ms) (simp_all add: wellFormedMessages_def)

lemma normalizeBundle_messages:
  "wellFormedMessages (stored_messages (bundle_messages b)) \<Longrightarrow>
   stored_messages (bundle_messages (fst (normalizeBundle pf (BundleData b) c w)))
   = stored_messages (bundle_messages b)"
  by (simp add: normalizeBundle_def Let_def normalizeStoredMessages_wellFormed split: prod.splits)

subsection \<open>Conversation records without faults\<close>

lemma ensureConversationRecord_missing:
  assumes "faults w = []" and "sanitizeConversationId cid = Some sid"
    and "map_of (fs w) (buildConversationFilePath pf sid) = None"
  shows "ensureConversationRecord pf cid w =
     (Inr \<lparr>rec_conversationId = sid, rec_filePath = buildConversationFilePath pf sid,
           rec_bundle = fst (createConversationBundle pf sid w)\<rparr>,
      afterAtomicWrite pf (buildConversationFilePath pf sid)
        (BundleData (fst (createConversationBundle pf sid w)))
        (snd (createConversationBundle pf sid w)))"
proof -
  obtain b w1 where c: "createConversationBundle pf sid w = (b, w1)"
    by (cases "createConversationBundle pf sid w")
  with createConversationBundle_frame[of pf sid w] assms have "faults w1 = []" by simp
  with assms c show ?thesis
    by (simp add: ensureConversationRecord_def loadBundle_def saveBundle_def atomicWriteJson_ok
        Let_def)
qed

lemma ensureConversationRecord_present:
  assumes "faults w = []" and "sanitizeConversationId cid = Some sid"
    and "map_of (fs w) (buildConversationFilePath pf sid) = Some (BundleData b)"
  shows "ensureConversationRecord pf cid w =
     (Inr \<lparr>rec_conversationId = sid, rec_filePath = buildConversationFilePath pf sid,
           rec_bundle = fst (normalizeBundle pf (BundleData b) sid w)\<rparr>,
      snd (normalizeBundle pf (BundleData b) sid w))"
  using assms
  by (simp add: ensureConversationRecord_def loadBundle_def Let_def split: prod.splits)

lemma ensureExistingConversationRecord_present:
  assumes "faults w = []" and "sanitizeConversationId cid = Some sid"
    and "map_of (fs w) (buildConversationFilePath pf sid) = Some (BundleData b)"
  shows "ensureExistingConversationRecord pf cid w =
     (Inr \<lparr>rec_conversationId = sid, rec_filePath = buildConversationFilePath pf sid,
           rec_bundle = fst (normalizeBundle pf (BundleData b) sid w)\<rparr>,
      snd (normalizeBundle pf (BundleData b) sid w))"
  using assms
  by (simp add: ensureExistingConversationRecord_def loadBundle_def Let_def split: prod.splits)

subsection \<open>Paths of the store\<close>

lemma endsWith_shorter:
  "length t \<le> length s \<Longrightarrow> endsWith (xs @ s) t = endsWith s t"
  by (simp add: endsWith_def)

lemma conversation_path_not_tmp: "\<not> endsWith (buildConversationFilePath pf c) ''.tmp''"
proof -
  have "buildConversationFilePath pf c = (CONVERSATIONS_DIR pf @ ''/'' @ c) @ ''.json''"
    by (simp add: buildConversationFilePath_def pathJoin_def)
  then have "endsWith (buildConversationFilePath pf c) ''.tmp'' = endsWith ''.json'' ''.tmp''"
    by (simp only: endsWith_shorter[of "''.tmp''" "''.json''", simplified])
  then show ?thesis by (simp add: endsWith_def)
qed

lemma conversation_path_not_global:
  "buildConversationFilePath pf c \<noteq> GLOBAL_INFO_JSON_PATH pf"
  by (simp add: buildConversationFilePath_def GLOBAL_INFO_JSON_PATH_def CONVERSATIONS_DIR_def
      pathJoin_def)

lemma updateGlobalActiveConversation_keeps:
  assumes "faults w = []"
  shows "map_of (fs (snd (updateGlobalActiveConversation pf r w))) (buildConversationFilePath pf c)
         = map_of (fs w) (buildConversationFilePath pf c)
       \<and> faults (snd (updateGlobalActiveConversation pf r w)) = []"
  using assms
  by (simp add: updateGlobalActiveConversation_def loadGlobalPayload_def atomicWriteJson_ok Let_def
      afterAtomicWrite_other conversation_path_not_tmp conversation_path_not_global
      split: prod.splits option.splits sum.splits filedata.splits IntegerNumber.splits)

subsection \<open>Persisting a prompt snapshot\<close>

text \<open>
  Once the record is there, \<open>persistPromptSnapshot\<close> without faults writes the merged
  messages to the record's file and returns the conversation id.
\<close>

lemma persist_after_record:
  assumes nf: "faults w1 = []"
    and path: "rec_filePath r = buildConversationFilePath pf sid"
  shows "\<exists>b w'.
     (case toStoredMessages pf messages w1 of
        (incomingMessages, w2) \<Rightarrow>
          (let b0 = rec_bundle r;
               b1 = b0\<lparr>bundle_messages := (bundle_messages b0)
                      \<lparr>stored_messages := mergeStoredMessagesPreservingExisting
                         (stored_messages (bundle_messages b0)) incomingMessages\<rparr>\<rparr>;
               b2 = (if modelName \<noteq> []
                     then b1\<lparr>bundle_model :=
                            \<lparr>model_kind = DEFAULT_MODEL_KIND, model_name = modelName\<rparr>\<rparr>
                     else b1);
               b3 = (case newUserId of
                       Some u \<Rightarrow> b2\<lparr>conversation := (conversation b2)\<lparr>userId := Some u\<rparr>\<rparr>
                     | None \<Rightarrow> b2);
               b4 = (case newUserName of
                       Some n \<Rightarrow> b3\<lparr>conversation := (conversation b3)\<lparr>userName := Some n\<rparr>\<rparr>
                     | None \<Rightarrow> b3)
           in case nowISOString pf w2 of
                (now, w3) \<Rightarrow>
                  (let b5 = b4\<lparr>conversation := (conversation b4)\<lparr>updated_at := now\<rparr>\<rparr>
                   in case saveBundle pf (rec_filePath r) b5 w3 of
                        (Inl e, w4) \<Rightarrow> (Inl e, w4)
                      | (Inr u1, w4) \<Rightarrow>
                          (case updateGlobalActiveConversation pf (r\<lparr>rec_bundle := b5\<rparr>) w4 of
                             (logged, w5) \<Rightarrow> (Inr (rec_conversationId r), w5)))))
     = (Inr (rec_conversationId r), w')
     \<and> faults w' = []
     \<and> map_of (fs w') (buildConversationFilePath pf sid) = Some (BundleData b)
     \<and> stored_messages (bundle_messages b)
       = mergeStoredMessagesPreservingExisting (stored_messages (bundle_messages (rec_bundle r)))
           (fst (toStoredMessages pf messages w1))"
proof -
  obtain inc w2 where t: "toStoredMessages pf messages w1 = (inc, w2)"
    by (cases "toStoredMessages pf messages w1")
  with toStoredMessages_frame[of pf messages w1] nf have nf2: "faults w2 = []" by simp
  define b4 where "b4 =
    (let b0 = rec_bundle r;
         b1 = b0\<lparr>bundle_messages := (bundle_messages b0)
                \<lparr>stored_messages := mergeStoredMessagesPreservingExisting
                   (stored_messages (bundle_messages b0)) inc\<rparr>\<rparr>;
         b2 = (if modelName \<noteq> []
               then b1\<lparr>bundle_model := \<lparr>model_kind = DEFAULT_MODEL_KIND, model_name = modelName\<rparr>\<rparr>
               else b1);
         b3 = (case newUserId of
                 Some u \<Rightarrow> b2\<lparr>conversation := (conversation b2)\<lparr>userId := Some u\<rparr>\<rparr>
               | None \<Rightarrow> b2)
     in (case newUserName of
           Some n \<Rightarrow> b3\<lparr>conversation := (conversation b3)\<lparr>userName := Some n\<rparr>\<rparr>
         | None \<Rightarrow> b3))"
  have m4: "stored_messages (bundle_messages b4)
            = mergeStoredMessagesPreservingExisting (stored_messages (bundle_messages (rec_bundle r))) inc"
    by (simp add: b4_def Let_def split: option.splits)
  define now where "now = toISOString pf (Date_now pf (clockReads w2))"
  define w3 where "w3 = w2\<lparr>clockReads := clockReads w2 + 1\<rparr>"
  define b5 where "b5 = b4\<lparr>conversation := (conversation b4)\<lparr>updated_at := now\<rparr>\<rparr>"
  have n: "nowISOString pf w2 = (now, w3)" by (simp add: nowISOString_eq now_def w3_def)
  have nf3: "faults w3 = []" using nf2 by (simp add: w3_def)
  define w4 where "w4 = afterAtomicWrite pf (buildConversationFilePath pf sid) (BundleData b5) w3"
  have s: "saveBundle pf (rec_filePath r) b5 w3 = (Inr (), w4)"
    using nf3 by (simp add: saveBundle_def atomicWriteJson_ok path w4_def)
  have nf4: "faults w4 = []" using nf3 by (simp add: w4_def)
  have l4: "map_of (fs w4) (buildConversationFilePath pf sid) = Some (BundleData b5)"
    by (simp add: w4_def)
  obtain lg w5 where u: "updateGlobalActiveConversation pf (r\<lparr>rec_bundle := b5\<rparr>) w4 = (lg, w5)"
    by (cases "updateGlobalActiveConversation pf (r\<lparr>rec_bundle := b5\<rparr>) w4")
  with updateGlobalActiveConversation_keeps[OF nf4, of pf "r\<lparr>rec_bundle := b5\<rparr>" sid] l4
  have k5: "map_of (fs w5) (buildConversationFilePath pf sid) = Some (BundleData b5)"
    and nf5: "faults w5 = []" by simp_all
  have m5: "stored_messages (bundle_messages b5)
            = mergeStoredMessagesPreservingExisting (stored_messages (bundle_messages (rec_bundle r))) inc"
    using m4 by (simp add: b5_def)
  show ?thesis
    apply (rule exI[of _ b5], rule exI[of _ w5])
    using t n s u k5 nf5 m5
    by (simp add: Let_def b5_def[symmetric] b4_def[symmetric, unfolded Let_def])
qed

lemma persist_with_record:
  assumes r: "(if (case opt_allowCreate options of Some b \<Rightarrow> b | None \<Rightarrow> True)
               then ensureConversationRecord pf cid w
               else ensureExistingConversationRecord pf cid w) = (Inr r, w1)"
    and nf: "faults w1 = []"
    and path: "rec_filePath r = buildConversationFilePath pf sid"
  shows "\<exists>b w'. persistPromptSnapshot pf cid messages options w = (Inr (rec_conversationId r), w')
     \<and> faults w' = []
     \<and> map_of (fs w') (buildConversationFilePath pf sid) = Some (BundleData b)
     \<and> stored_messages (bundle_messages b)
       = mergeStoredMessagesPreservingExisting (stored_messages (bundle_messages (rec_bundle r)))
           (fst (toStoredMessages pf messages w1))"
  unfolding persistPromptSnapshot_def Let_def r
  apply (simp only: prod.case sum.case)
  apply (rule persist_after_record[unfolded Let_def, OF nf path])
  done

lemma roleName_nonempty: "roleName r \<noteq> []"
  by (cases r) (simp_all add: roleName_def)

lemma toStoredMessage_cases:
  "toStoredMessage pf m w = (r, w') \<Longrightarrow>
   (r = None \<and> \<not> storable m)
   \<or> (\<exists>sm. r = Some sm \<and> storable m \<and> msg_id sm \<noteq> [] \<and> trim (msg_text sm) \<noteq> []
        \<and> (ui_id m \<noteq> [] \<longrightarrow> msg_id sm = ui_id m))"
  by (auto simp: toStoredMessage_def storable_def Let_def nowISOString_eq createMessageId_eq
      roleName_nonempty split: option.splits if_splits)

lemma toStoredMessages_wellFormed: "wellFormedMessages (fst (toStoredMessages pf ms w))"
proof (induction ms arbitrary: w)
  case Nil
  then show ?case by (simp add: wellFormedMessages_def)
next
  case (Cons m ms)
  obtain r w1 where t: "toStoredMessage pf m w = (r, w1)" by (cases "toStoredMessage pf m w")
  from toStoredMessage_cases[OF t] Cons[of w1] t show ?case
    by (auto simp: wellFormedMessages_def split: prod.splits)
qed

lemma toStoredMessages_ids:
  "list_all (\<lambda>m. ui_id m \<noteq> []) ms \<Longrightarrow>
   map msg_id (fst (toStoredMessages pf ms w)) = map ui_id (filter storable ms)"
proof (induction ms arbitrary: w)
  case Nil
  then show ?case by simp
next
  case (Cons m ms)
  obtain r w1 where t: "toStoredMessage pf m w = (r, w1)" by (cases "toStoredMessage pf m w")
  from Cons.prems have "ui_id m \<noteq> []" "list_all (\<lambda>m. ui_id m \<noteq> []) ms" by simp_all
  with toStoredMessage_cases[OF t] Cons.IH[of w1] t show ?case
    by (auto split: prod.splits)
qed

lemma set_appendedById: "set (appendedById seen incoming) \<subseteq> set incoming"
  by (induction incoming arbitrary: seen) auto

lemma merge_wellFormed:
  assumes "wellFormedMessages existing" and "wellFormedMessages incoming"
  shows "wellFormedMessages (mergeStoredMessagesPreservingExisting existing incoming)"
  using assms set_appendedById[of "set (map msg_id existing)" incoming]
  by (auto simp: wellFormedMessages_def list_all_iff mergeStoredMessagesPreservingExisting_def
      mergeLoop_append)

text \<open>
  \<open>persistPromptSnapshot\<close> on a conversation whose file holds a bundle, without faults,
  for either value of \<open>allowCreate\<close>.
\<close>

lemma persist_present:
  assumes nf: "faults w = []" and sid: "sanitizeConversationId cid = Some sid"
    and fl: "map_of (fs w) (buildConversationFilePath pf sid) = Some (BundleData b0)"
    and wf: "wellFormedMessages (stored_messages (bundle_messages b0))"
  shows "\<exists>b w'. persistPromptSnapshot pf cid messages options w = (Inr sid, w')
     \<and> faults w' = []
     \<and> map_of (fs w') (buildConversationFilePath pf sid) = Some (BundleData b)
     \<and> stored_messages (bundle_messages b)
       = mergeStoredMessagesPreservingExisting (stored_messages (bundle_messages b0))
           (fst (toStoredMessages pf messages (snd (normalizeBundle pf (BundleData b0) sid w))))"
proof -
  let ?r = "\<lparr>rec_conversationId = sid, rec_filePath = buildConversationFilePath pf sid,
             rec_bundle = fst (normalizeBundle pf (BundleData b0) sid w)\<rparr>"
  let ?w1 = "snd (normalizeBundle pf (BundleData b0) sid w)"
  have r: "(if (case opt_allowCreate options of Some b \<Rightarrow> b | None \<Rightarrow> True)
            then ensureConversationRecord pf cid w
            else ensureExistingConversationRecord pf cid w) = (Inr ?r, ?w1)"
    using ensureConversationRecord_present[OF nf sid fl]
      ensureExistingConversationRecord_present[OF nf sid fl] by simp
  have nf1: "faults ?w1 = []"
    using normalizeBundle_frame[of pf "BundleData b0" sid w] nf by simp
  from persist_with_record[OF r nf1, of sid messages] normalizeBundle_messages[OF wf, of pf sid w]
  show ?thesis by simp
qed

lemma persist_missing:
  assumes nf: "faults w = []" and sid: "sanitizeConversationId cid = Some sid"
    and fl: "map_of (fs w) (buildConversationFilePath pf sid) = None"
    and create: "opt_allowCreate options \<noteq> Some False"
  shows "\<exists>b w'. persistPromptSnapshot pf cid messages options w = (Inr sid, w')
     \<and> faults w' = []
     \<and> map_of (fs w') (buildConversationFilePath pf sid) = Some (BundleData b)
     \<and> stored_messages (bundle_messages b)
       = fst (toStoredMessages pf messages
               (afterAtomicWrite pf (buildConversationFilePath pf sid)
                  (BundleData (fst (createConversationBundle pf sid w)))
                  (snd (createConversationBundle pf sid w))))"
proof -
  let ?b = "fst (createConversationBundle pf sid w)"
  let ?r = "\<lparr>rec_conversationId = sid, rec_filePath = buildConversationFilePath pf sid,
             rec_bundle = ?b\<rparr>"
  let ?w1 = "afterAtomicWrite pf (buildConversationFilePath pf sid) (BundleData ?b)
               (snd (createConversationBundle pf sid w))"
  have a: "(case opt_allowCreate options of Some b \<Rightarrow> b | None \<Rightarrow> True)"
    using create by (cases "opt_allowCreate options") auto
  have r: "(if (case opt_allowCreate options of Some b \<Rightarrow> b | None \<Rightarrow> True)
            then ensureConversationRecord pf cid w
            else ensureExistingConversationRecord pf cid w) = (Inr ?r, ?w1)"
    using ensureConversationRecord_missing[OF nf sid fl] a by simp
  have nf1: "faults ?w1 = []"
    using createConversationBundle_frame[of pf sid w] nf by simp
  from persist_with_record[OF r nf1, of sid messages] createConversationBundle_fields(1)[of pf sid w]
  show ?thesis by (simp add: mergeStoredMessagesPreservingExisting_def)
qed

text \<open>
  The positive part of claim C1: on a stored bundle whose messages have ids and text,
  the stored messages stay first and in place, and a second call with messages of the same
  ids leaves the stored messages as the first call wrote them.
\<close>

lemma persistPromptSnapshot_idempotent:
  assumes nf: "faults w = []" and sid: "sanitizeConversationId cid = Some sid"
    and fl: "map_of (fs w) (buildConversationFilePath pf sid) = Some (BundleData b0)"
    and wf: "wellFormedMessages (stored_messages (bundle_messages b0))"
    and ids: "list_all (\<lambda>m. ui_id m \<noteq> []) messages"
  shows "\<exists>b w' b' w''.
       persistPromptSnapshot pf cid messages options w = (Inr sid, w')
     \<and> map_of (fs w') (buildConversationFilePath pf sid) = Some (BundleData b)
     \<and> take (length (stored_messages (bundle_messages b0))) (stored_messages (bundle_messages b))
         = stored_messages (bundle_messages b0)
     \<and> persistPromptSnapshot pf cid messages options' w' = (Inr sid, w'')
     \<and> map_of (fs w'') (buildConversationFilePath pf sid) = Some (BundleData b')
     \<and> stored_messages (bundle_messages b') = stored_messages (bundle_messages b)"
proof -
  let ?p = "buildConversationFilePath pf sid"
  let ?e = "stored_messages (bundle_messages b0)"
  let ?w1 = "snd (normalizeBundle pf (BundleData b0) sid w)"
  from persist_present[OF nf sid fl wf, of messages options]
  obtain b w' where 1: "persistPromptSnapshot pf cid messages options w = (Inr sid, w')"
    and nf': "faults w' = []" and f': "map_of (fs w') ?p = Some (BundleData b)"
    and m: "stored_messages (bundle_messages b)
            = mergeStoredMessagesPreservingExisting ?e (fst (toStoredMessages pf messages ?w1))"
    by blast
  have wf': "wellFormedMessages (stored_messages (bundle_messages b))"
    unfolding m by (rule merge_wellFormed[OF wf toStoredMessages_wellFormed])
  let ?w2 = "snd (normalizeBundle pf (BundleData b) sid w')"
  from persist_present[OF nf' sid f' wf', of messages options']
  obtain b' w'' where 2: "persistPromptSnapshot pf cid messages options' w' = (Inr sid, w'')"
    and f'': "map_of (fs w'') ?p = Some (BundleData b')"
    and m': "stored_messages (bundle_messages b')
            = mergeStoredMessagesPreservingExisting (stored_messages (bundle_messages b))
                (fst (toStoredMessages pf messages ?w2))"
    by blast
  have same: "map msg_id (fst (toStoredMessages pf messages ?w2))
              = map msg_id (fst (toStoredMessages pf messages ?w1))"
    by (simp add: toStoredMessages_ids[OF ids])
  have "stored_messages (bundle_messages b') = stored_messages (bundle_messages b)"
    unfolding m' unfolding m by (rule merge_idempotent[OF same])
  moreover have "take (length ?e) (stored_messages (bundle_messages b)) = ?e"
    unfolding m by (rule merge_keeps_existing)
  ultimately show ?thesis using 1 2 f' f'' by blast
qed

lemma sanitize_conversation1:
  "sanitizeConversationId (Some ''conversation1'') = Some ''conversation1''"
  by (simp add: sanitizeConversationId_def trim_def isWhitespace_def isIdChar_def)

lemma duplicate_id_messages_ids:
  "map ui_id (filter storable duplicate_id_messages) = [''a'', ''a'']"
  by (simp add: duplicate_id_messages_def storable_def storedRoleOf_def
      extractTextFromUIMessage_def List.map_filter_simps trim_def isWhitespace_def)

text \<open>
  Claim C1 says that the messages stored by \<open>persistPromptSnapshot\<close> carry no id twice.
  With the options of the chat route, on a conversation that has no stored message yet, a
  snapshot of two messages with the id \<open>a\<close> stores both, and a second call with the same
  snapshot stores the same two again: \<open>mergeStoredMessagesPreservingExisting\<close> returns the
  incoming messages as they are when nothing is stored, before the loop that drops
  repeated ids.
\<close>

theorem C1_first_snapshot_keeps_duplicate_ids:
  "\<exists>b w' b' w''.
      persistPromptSnapshot pf (Some ''conversation1'') duplicate_id_messages route_options
        (fresh_conversation_world pf) = (Inr ''conversation1'', w')
    \<and> map_of (fs w') (buildConversationFilePath pf ''conversation1'') = Some (BundleData b)
    \<and> map msg_id (stored_messages (bundle_messages b)) = [''a'', ''a'']
    \<and> persistPromptSnapshot pf (Some ''conversation1'') duplicate_id_messages route_options w'
        = (Inr ''conversation1'', w'')
    \<and> map_of (fs w'') (buildConversationFilePath pf ''conversation1'') = Some (BundleData b')
    \<and> map msg_id (stored_messages (bundle_messages b')) = [''a'', ''a'']"
proof -
  let ?w = "fresh_conversation_world pf"
  let ?p = "buildConversationFilePath pf ''conversation1''"
  let ?b0 = "fst (createConversationBundle pf ''conversation1'' empty_world)"
  have nf: "faults ?w = []" by (simp add: fresh_conversation_world_def)
  have fl: "map_of (fs ?w) ?p = Some (BundleData ?b0)" by (simp add: fresh_conversation_world_def)
  have e0: "stored_messages (bundle_messages ?b0) = []" by (rule createConversationBundle_fields)
  have wf: "wellFormedMessages (stored_messages (bundle_messages ?b0))"
    by (simp add: e0 wellFormedMessages_def)
  have ids: "list_all (\<lambda>m. ui_id m \<noteq> []) duplicate_id_messages"
    by (simp add: duplicate_id_messages_def)
  from persistPromptSnapshot_idempotent[OF nf sanitize_conversation1 fl wf ids,
      of route_options route_options]
  obtain b w' b' w'' where
    1: "persistPromptSnapshot pf (Some ''conversation1'') duplicate_id_messages route_options ?w
        = (Inr ''conversation1'', w')"
    and f1: "map_of (fs w') ?p = Some (BundleData b)"
    and 2: "persistPromptSnapshot pf (Some ''conversation1'') duplicate_id_messages route_options w'
        = (Inr ''conversation1'', w'')"
    and f2: "map_of (fs w'') ?p = Some (BundleData b')"
    and same: "stored_messages (bundle_messages b') = stored_messages (bundle_messages b)"
    by blast
  from persist_present[OF nf sanitize_conversation1 fl wf, of duplicate_id_messages route_options]
    1 f1
  have "stored_messages (bundle_messages b)
        = mergeStoredMessagesPreservingExisting []
            (fst (toStoredMessages pf duplicate_id_messages
                    (snd (normalizeBundle pf (BundleData ?b0) ''conversation1'' ?w))))"
    by (auto simp: e0)
  then have "map msg_id (stored_messages (bundle_messages b)) = [''a'', ''a'']"
    by (simp add: mergeStoredMessagesPreservingExisting_def toStoredMessages_ids[OF ids]
        duplicate_id_messages_ids)
  with 1 f1 2 f2 same show ?thesis by auto
qed

subsection \<open>Atomic replacement of a file\<close>

lemma atomicWriteJson_tempPathOf:
  "atomicWriteJson pf filePath payload w =
     (case fs_mkdir (dirname filePath) w of
        (Inl e, w1) \<Rightarrow> (Inl e, w1)
      | (Inr u1, w1) \<Rightarrow>
          (case fs_writeFile (tempPathOf pf filePath (randomUUID pf (uuidDraws w1))) payload
                  (w1\<lparr>uuidDraws := uuidDraws w1 + 1\<rparr>) of
             (Inl e, w3) \<Rightarrow> (Inl e, w3)
           | (Inr u2, w3) \<Rightarrow>
               (case fs_rename (tempPathOf pf filePath (randomUUID pf (uuidDraws w1))) filePath w3 of
                  (Inr u3, w4) \<Rightarrow> (Inr (), w4)
                | (Inl e, w4) \<Rightarrow>
                    (case fs_unlink (tempPathOf pf filePath (randomUUID pf (uuidDraws w1))) w4 of
                       (cleanup, w5) \<Rightarrow> (Inl e, w5)))))"
proof -
  obtain r1 w1 where m: "fs_mkdir (dirname filePath) w = (r1, w1)"
    by (cases "fs_mkdir (dirname filePath) w")
  let ?t = "tempPathOf pf filePath (randomUUID pf (uuidDraws w1))"
  obtain r3 w3 where wr: "fs_writeFile ?t payload (w1\<lparr>uuidDraws := uuidDraws w1 + 1\<rparr>) = (r3, w3)"
    by (cases "fs_writeFile ?t payload (w1\<lparr>uuidDraws := uuidDraws w1 + 1\<rparr>)")
  obtain r4 w4 where rn: "fs_rename ?t filePath w3 = (r4, w4)"
    by (cases "fs_rename ?t filePath w3")
  obtain r5 w5 where ul: "fs_unlink ?t w4 = (r5, w5)"
    by (cases "fs_unlink ?t w4")
  show ?thesis
    using m wr rn ul
    by (cases r1; cases r3; cases r4)
       (simp_all add: atomicWriteJson_def drawUUID_def tempPathOf_def Let_def)
qed

lemma takeFault_fsD: "takeFault w = (f, w') \<Longrightarrow> fs w' = fs w"
  by (auto simp: takeFault_def split: list.splits)

lemma fs_mkdir_fs: "fs (snd (fs_mkdir d w)) = fs w"
  by (auto simp: fs_mkdir_def split: prod.splits option.splits dest: takeFault_fsD)

lemma fs_mkdir_not_ENOENT: "fst (fs_mkdir d w) \<noteq> Inl ENOENT"
  by (auto simp: fs_mkdir_def split: prod.splits option.splits dest: takeFault_fsD)

lemma fs_writeFile_other:
  "q \<noteq> p \<Longrightarrow> map_of (fs (snd (fs_writeFile p d w))) q = map_of (fs w) q"
  by (auto simp: fs_writeFile_def map_of_fs_put split: prod.splits option.splits fault.splits dest: takeFault_fsD)

lemma fs_writeFile_written:
  "fs_writeFile p d w = (Inr u, w') \<Longrightarrow> map_of (fs w') p = Some d"
  by (auto simp: fs_writeFile_def map_of_fs_put split: prod.splits option.splits fault.splits dest: takeFault_fsD)

lemma fs_writeFile_not_ENOENT: "fst (fs_writeFile p d w) \<noteq> Inl ENOENT"
  by (auto simp: fs_writeFile_def split: prod.splits option.splits fault.splits dest: takeFault_fsD)

lemma fs_unlink_other:
  "q \<noteq> p \<Longrightarrow> map_of (fs (snd (fs_unlink p w))) q = map_of (fs w) q"
  by (auto simp: fs_unlink_def map_of_fs_del split: prod.splits option.splits dest: takeFault_fsD)

lemma fs_rename_target:
  "src \<noteq> dst \<Longrightarrow>
   map_of (fs (snd (fs_rename src dst w))) dst
   = (if fst (fs_rename src dst w) = Inr () then map_of (fs w) src else map_of (fs w) dst)"
  by (auto simp: fs_rename_def map_of_fs_put map_of_fs_del split: prod.splits option.splits dest: takeFault_fsD)

lemma fs_rename_ENOENT:
  "fs_rename src dst w = (Inl ENOENT, w') \<Longrightarrow> map_of (fs w) src = None"
  by (auto simp: fs_rename_def split: prod.splits option.splits dest: takeFault_fsD)

text \<open>
  \<open>atomicWriteJson\<close> under every schedule of faults: when it returns, the target holds
  the payload; when it throws, the target holds what it held before.
\<close>

lemma atomicWriteJson_atomic:
  "map_of (fs (snd (atomicWriteJson pf p d w))) p
   = (if fst (atomicWriteJson pf p d w) = Inr () then Some d else map_of (fs w) p)"
proof -
  obtain r1 w1 where m: "fs_mkdir (dirname p) w = (r1, w1)" by (cases "fs_mkdir (dirname p) w")
  with fs_mkdir_fs[of "dirname p" w] have f1: "fs w1 = fs w" by simp
  let ?t = "tempPathOf pf p (randomUUID pf (uuidDraws w1))"
  let ?w2 = "w1\<lparr>uuidDraws := uuidDraws w1 + 1\<rparr>"
  have t: "?t \<noteq> p" by (rule tempPath_neq)
  obtain r3 w3 where wr: "fs_writeFile ?t d ?w2 = (r3, w3)" by (cases "fs_writeFile ?t d ?w2")
  with fs_writeFile_other[of p ?t d ?w2] t f1 have f3: "map_of (fs w3) p = map_of (fs w) p"
    by auto
  obtain r4 w4 where rn: "fs_rename ?t p w3 = (r4, w4)" by (cases "fs_rename ?t p w3")
  obtain r5 w5 where ul: "fs_unlink ?t w4 = (r5, w5)" by (cases "fs_unlink ?t w4")
  with fs_unlink_other[of p ?t w4] t have f5: "map_of (fs w5) p = map_of (fs w4) p" by auto
  show ?thesis
  proof (cases r1)
    case (Inl e)
    with m f1 show ?thesis by (simp add: atomicWriteJson_tempPathOf)
  next
    case r1: (Inr u1)
    show ?thesis
    proof (cases r3)
      case (Inl e)
      with m r1 wr f3 show ?thesis by (simp add: atomicWriteJson_tempPathOf)
    next
      case r3: (Inr u2)
      from fs_writeFile_written[of ?t d ?w2] wr r3 have tw: "map_of (fs w3) ?t = Some d" by simp
      from fs_rename_target[OF t, of w3] rn tw f3
      have f4: "map_of (fs w4) p = (if r4 = Inr () then Some d else map_of (fs w) p)" by simp
      show ?thesis
      proof (cases r4)
        case (Inl e)
        with m r1 wr r3 rn ul f4 f5 show ?thesis by (simp add: atomicWriteJson_tempPathOf)
      next
        case (Inr u3)
        with m r1 wr r3 rn f4 show ?thesis by (simp add: atomicWriteJson_tempPathOf)
      qed
    qed
  qed
qed

lemma atomicWriteJson_not_ENOENT: "fst (atomicWriteJson pf p d w) \<noteq> Inl ENOENT"
proof -
  obtain r1 w1 where m: "fs_mkdir (dirname p) w = (r1, w1)" by (cases "fs_mkdir (dirname p) w")
  let ?t = "tempPathOf pf p (randomUUID pf (uuidDraws w1))"
  let ?w2 = "w1\<lparr>uuidDraws := uuidDraws w1 + 1\<rparr>"
  obtain r3 w3 where wr: "fs_writeFile ?t d ?w2 = (r3, w3)" by (cases "fs_writeFile ?t d ?w2")
  obtain r4 w4 where rn: "fs_rename ?t p w3 = (r4, w4)" by (cases "fs_rename ?t p w3")
  obtain r5 w5 where ul: "fs_unlink ?t w4 = (r5, w5)" by (cases "fs_unlink ?t w4")
  have a: "r1 \<noteq> Inl ENOENT" using fs_mkdir_not_ENOENT[of "dirname p" w] m by auto
  have b: "r3 \<noteq> Inl ENOENT" using fs_writeFile_not_ENOENT[of ?t d ?w2] wr by auto
  have c: "r3 = Inr () \<Longrightarrow> r4 \<noteq> Inl ENOENT"
    using fs_writeFile_written[of ?t d ?w2 "()" w3] fs_rename_ENOENT[of ?t p w3 w4] wr rn by auto
  show ?thesis
    using m wr rn ul a b c
    by (cases r1; cases r3; cases r4) (auto simp: atomicWriteJson_tempPathOf)
qed

text \<open>
  Claim C4 says that every write of a conversation bundle is an atomic replacement. The
  \<open>saveBundle\<close> of src/unnamed/part_002 is not: a write that fails half-way leaves the
  target torn, neither the old bundle nor the new one. Under the same kind of fault the
  \<open>saveBundle\<close> of src/unnamed/part_003 leaves the old bundle in place.
\<close>

theorem C4_legacy_saveBundle_leaves_torn_file:
  "legacy_saveBundle p new
     \<lparr>fs = [(p, BundleData old)], faults = [Some FailTorn], clockReads = c, uuidDraws = u\<rparr>
   = (Inl EIO, \<lparr>fs = [(p, Unparseable)], faults = [], clockReads = c, uuidDraws = u\<rparr>)
   \<and> fst (saveBundle pf p new
       \<lparr>fs = [(p, BundleData old)], faults = [None, Some FailTorn], clockReads = c, uuidDraws = u\<rparr>)
     = Inl EIO
   \<and> map_of (fs (snd (saveBundle pf p new
       \<lparr>fs = [(p, BundleData old)], faults = [None, Some FailTorn], clockReads = c, uuidDraws = u\<rparr>))) p
     = Some (BundleData old)"
proof -
  let ?w = "\<lparr>fs = [(p, BundleData old)], faults = [None, Some FailTorn], clockReads = c, uuidDraws = u\<rparr>"
  have 1: "legacy_saveBundle p new
     \<lparr>fs = [(p, BundleData old)], faults = [Some FailTorn], clockReads = c, uuidDraws = u\<rparr>
   = (Inl EIO, \<lparr>fs = [(p, Unparseable)], faults = [], clockReads = c, uuidDraws = u\<rparr>)"
    by (simp add: legacy_saveBundle_def fs_writeFile_def takeFault_def)
  have 2: "fst (saveBundle pf p new ?w) = Inl EIO"
    by (simp add: saveBundle_def atomicWriteJson_tempPathOf fs_mkdir_def fs_writeFile_def
        takeFault_def)
  from atomicWriteJson_atomic[of pf p "BundleData new" ?w] 2
  have 3: "map_of (fs (snd (saveBundle pf p new ?w))) p = Some (BundleData old)"
    by (simp add: saveBundle_def)
  from 1 2 3 show ?thesis by simp
qed

subsection \<open>Appending an assistant completion\<close>



lemma getNextConversationId_not_ENOENT: "fst (getNextConversationId pf w) \<noteq> Inl ENOENT"
  by (auto simp: getNextConversationId_def fs_readdir_def Let_def
      split: prod.splits option.splits sum.splits)

lemma saveBundle_not_ENOENT: "fst (saveBundle pf p b w) \<noteq> Inl ENOENT"
  by (simp add: saveBundle_def atomicWriteJson_not_ENOENT)

lemma ensureConversationRecord_not_ENOENT:
  "fst (ensureConversationRecord pf cid w) \<noteq> Inl ENOENT"
proof -
  obtain r1 w1 where m: "fs_mkdir (CONVERSATIONS_DIR pf) w = (r1, w1)"
    by (cases "fs_mkdir (CONVERSATIONS_DIR pf) w")
  have a: "r1 \<noteq> Inl ENOENT" using fs_mkdir_not_ENOENT[of "CONVERSATIONS_DIR pf" w] m by auto
  show ?thesis
  proof (cases r1)
    case (Inl e)
    with m a show ?thesis by (auto simp: ensureConversationRecord_def)
  next
    case r1: (Inr u1)
    show ?thesis
    proof (cases "sanitizeConversationId cid")
      case None
      obtain r2 w2 where g: "getNextConversationId pf w1 = (r2, w2)"
        by (cases "getNextConversationId pf w1")
      have b: "r2 \<noteq> Inl ENOENT" using getNextConversationId_not_ENOENT[of pf w1] g by auto
      show ?thesis
      proof (cases r2)
        case (Inl e)
        with m r1 None g b show ?thesis by (auto simp: ensureConversationRecord_def)
      next
        case (Inr c)
        obtain bb w3 where cb: "createConversationBundle pf c w2 = (bb, w3)"
          by (cases "createConversationBundle pf c w2")
        obtain r4 w4 where sv: "saveBundle pf (buildConversationFilePath pf c) bb w3 = (r4, w4)"
          by (cases "saveBundle pf (buildConversationFilePath pf c) bb w3")
        have "r4 \<noteq> Inl ENOENT"
          using saveBundle_not_ENOENT[of pf "buildConversationFilePath pf c" bb w3] sv by auto
        with m r1 None g Inr cb sv show ?thesis
          by (cases r4) (auto simp: ensureConversationRecord_def Let_def)
      qed
    next
      case (Some sid)
      let ?p = "buildConversationFilePath pf sid"
      obtain r2 w2 where l: "loadBundle pf ?p sid w1 = (r2, w2)" by (cases "loadBundle pf ?p sid w1")
      obtain bb w3 where cb: "createConversationBundle pf sid w2 = (bb, w3)"
        by (cases "createConversationBundle pf sid w2")
      obtain r4 w4 where sv: "saveBundle pf ?p bb w3 = (r4, w4)" by (cases "saveBundle pf ?p bb w3")
      have "r4 \<noteq> Inl ENOENT" using saveBundle_not_ENOENT[of pf ?p bb w3] sv by auto
      with m r1 Some l cb sv show ?thesis
        by (cases r2; cases r4) (auto simp: ensureConversationRecord_def Let_def)
    qed
  qed
qed

lemma appendAssistantCompletion_not_ENOENT:
  "fst (appendAssistantCompletion pf cid t w) \<noteq> Inl ENOENT"
proof (cases "trim t = []")
  case True
  then show ?thesis by (simp add: appendAssistantCompletion_def)
next
  case False
  obtain r1 w1 where e: "ensureConversationRecord pf (Some cid) w = (r1, w1)"
    by (cases "ensureConversationRecord pf (Some cid) w")
  have a: "r1 \<noteq> Inl ENOENT" using ensureConversationRecord_not_ENOENT[of pf "Some cid" w] e by auto
  show ?thesis
  proof (cases r1)
    case (Inl err)
    with False e a show ?thesis by (auto simp: appendAssistantCompletion_def)
  next
    case (Inr r)
    with False e show ?thesis
      by (auto simp: appendAssistantCompletion_def Let_def saveBundle_not_ENOENT
          createMessageId_eq nowISOString_eq)
  qed
qed

text \<open>
  Claim C10. \<open>appendAssistantCompletion\<close> never throws the not-found error \<open>ENOENT\<close>, under
  any schedule of faults. With text that is not blank, an id that \<open>sanitizeConversationId\<close>
  accepts (the chat route passes a sanitized id, which it leaves as it is) and no file for
  that id, it returns normally when no fault occurs, and afterwards the file of the id
  holds a bundle of that id with exactly one message, the assistant message with the text.
\<close>

theorem C10_append_creates_missing_conversation:
  assumes "faults w = []" and "trim t \<noteq> []"
    and "sanitizeConversationId (Some cid) = Some sid"
    and "map_of (fs w) (buildConversationFilePath pf sid) = None"
  shows "(\<forall>w0. fst (appendAssistantCompletion pf cid t w0) \<noteq> Inl ENOENT)
    \<and> (\<exists>b w'. appendAssistantCompletion pf cid t w = (Inr (), w')
          \<and> map_of (fs w') (buildConversationFilePath pf sid) = Some (BundleData b)
          \<and> conv_id (conversation b) = sid
          \<and> map msg_role (stored_messages (bundle_messages b)) = [RoleAssistant]
          \<and> map msg_text (stored_messages (bundle_messages b)) = [t])"
proof -
  let ?p = "buildConversationFilePath pf sid"
  let ?b0 = "fst (createConversationBundle pf sid w)"
  let ?w1 = "afterAtomicWrite pf ?p (BundleData ?b0) (snd (createConversationBundle pf sid w))"
  have e: "ensureConversationRecord pf (Some cid) w =
     (Inr \<lparr>rec_conversationId = sid, rec_filePath = ?p, rec_bundle = ?b0\<rparr>, ?w1)"
    using assms by (intro ensureConversationRecord_missing)
  have nf1: "faults ?w1 = []"
    using createConversationBundle_frame[of pf sid w] assms(1) by simp
  have m0: "stored_messages (bundle_messages ?b0) = []" by (rule createConversationBundle_fields)
  have c0: "conv_id (conversation ?b0) = sid" by (rule createConversationBundle_fields)
  obtain i w2 where mi: "createMessageId pf RoleAssistant ?w1 = (i, w2)"
    by (cases "createMessageId pf RoleAssistant ?w1")
  obtain ca w3 where n1: "nowISOString pf w2 = (ca, w3)" by (cases "nowISOString pf w2")
  obtain ua w4 where n2: "nowISOString pf w3 = (ua, w4)" by (cases "nowISOString pf w3")
  have nf4: "faults w4 = []"
    using mi n1 n2 nf1 by (auto simp: createMessageId_eq nowISOString_eq)
  let ?b1 = "?b0\<lparr>bundle_messages := (bundle_messages ?b0)
                \<lparr>stored_messages := [] @ [\<lparr>msg_id = i, msg_role = RoleAssistant, msg_text = t,
                                            msg_created_at = ca\<rparr>]\<rparr>,
              conversation := (conversation ?b0)\<lparr>updated_at := ua\<rparr>\<rparr>"
  have "appendAssistantCompletion pf cid t w = (Inr (), afterAtomicWrite pf ?p (BundleData ?b1) w4)"
    using assms(2) e m0 mi n1 n2 nf4
    by (simp add: appendAssistantCompletion_def Let_def saveBundle_def atomicWriteJson_ok)
  moreover have "map_of (fs (afterAtomicWrite pf ?p (BundleData ?b1) w4)) ?p = Some (BundleData ?b1)"
    by simp
  moreover have "conv_id (conversation ?b1) = sid" using c0 by simp
  moreover have "map msg_role (stored_messages (bundle_messages ?b1)) = [RoleAssistant]" by simp
  moreover have "map msg_text (stored_messages (bundle_messages ?b1)) = [t]" by simp
  ultimately have "\<exists>b w'. appendAssistantCompletion pf cid t w = (Inr (), w')
          \<and> map_of (fs w') ?p = Some (BundleData b)
          \<and> conv_id (conversation b) = sid
          \<and> map msg_role (stored_messages (bundle_messages b)) = [RoleAssistant]
          \<and> map msg_text (stored_messages (bundle_messages b)) = [t]"
    by (intro exI[of _ ?b1] exI[of _ "afterAtomicWrite pf ?p (BundleData ?b1) w4"] conjI)
  moreover have "\<forall>w0. fst (appendAssistantCompletion pf cid t w0) \<noteq> Inl ENOENT"
    by (simp add: appendAssistantCompletion_not_ENOENT)
  ultimately show ?thesis by (rule conjI[rotated])
qed

theorem C10_append_creates_missing_conversation_witness:
  "faults empty_world = [] \<and> trim ''Hello.'' \<noteq> []
   \<and> (\<forall>w0. fst (appendAssistantCompletion example_platform ''conversation1'' ''Hello.'' w0) \<noteq> Inl ENOENT)
   \<and> sanitizeConversationId (Some ''conversation1'') = Some ''conversation1''
   \<and> map_of (fs empty_world) (buildConversationFilePath example_platform ''conversation1'') = None
   \<and> (\<exists>b w'. appendAssistantCompletion example_platform ''conversation1'' ''Hello.'' empty_world = (Inr (), w')
          \<and> map_of (fs w') (buildConversationFilePath example_platform ''conversation1'') = Some (BundleData b)
          \<and> conv_id (conversation b) = ''conversation1''
          \<and> map msg_role (stored_messages (bundle_messages b)) = [RoleAssistant]
          \<and> map msg_text (stored_messages (bundle_messages b)) = [''Hello.''])"
  using C10_append_creates_missing_conversation[of empty_world "''Hello.''" "''conversation1''"
      "''conversation1''" example_platform]
  by (simp add: empty_world_def sanitize_conversation1 trim_def isWhitespace_def)

subsection \<open>Listing the conversations\<close>















subsection \<open>Sanitized ids\<close>





subsection \<open>Recording the active conversation\<close>










subsection \<open>Deleting a conversation\<close>













section \<open>Verification: per-conversation lock\<close>

lemma lockInvariant_initial: "lockInvariant initialLockState"
  by (simp add: lockInvariant_def inv_map_def inv_none_def inv_prev_def inv_settled_def
      inv_returned_def inv_released_def initialLockState_def)

lemma settled_previous_earlierReleased:
  assumes "inv_prev s" and "inv_settled s" and "m < length (acquisitions s)"
    and "promiseSettled s (acq_previousTail (acquisitions s ! m))"
  shows "earlierReleased s m"
proof (cases "acq_previousTail (acquisitions s ! m)")
  case ResolvedPromise
  then show ?thesis using assms(1,3) by (auto simp: inv_prev_def)
next
  case (NextTail j)
  let ?c = "\<lambda>k. acq_conversationId (acquisitions s ! k)"
  from assms(1,3) NextTail have j: "j < m" "?c j = ?c m"
    and between: "\<And>n. j < n \<Longrightarrow> n < m \<Longrightarrow> ?c n \<noteq> ?c m"
    by (auto simp: inv_prev_def)
  from assms(4) NextTail have "j < length (acquisitions s)"
    and "acq_nextTailSettled (acquisitions s ! j)"
    by (simp_all add: promiseSettled_def)
  with assms(2) have rj: "acq_released (acquisitions s ! j)" and ej: "earlierReleased s j"
    by (auto simp: inv_settled_def)
  show ?thesis
    unfolding earlierReleased_def
  proof (intro allI impI)
    fix n assume n: "n < m" and c: "?c n = ?c m"
    have "n \<le> j" using between[of n] n c by (cases "j < n") auto
    then consider "n = j" | "n < j" by linarith
    then show "acq_released (acquisitions s ! n)"
    proof cases
      case 1
      then show ?thesis using rj by simp
    next
      case 2
      then show ?thesis using ej c j by (simp add: earlierReleased_def)
    qed
  qed
qed

text \<open>What the steps change.\<close>

lemma acquire_resume_fields:
  "length (acquisitions (acquire_resume n s)) = length (acquisitions s)"
  "queueTail (acquire_resume n s) = queueTail s"
  "conversationLockQueues (acquire_resume n s) = conversationLockQueues s"
  "k < length (acquisitions s) \<Longrightarrow>
     acq_conversationId (acquisitions (acquire_resume n s) ! k) = acq_conversationId (acquisitions s ! k)
   \<and> acq_queue (acquisitions (acquire_resume n s) ! k) = acq_queue (acquisitions s ! k)
   \<and> acq_previousTail (acquisitions (acquire_resume n s) ! k) = acq_previousTail (acquisitions s ! k)
   \<and> acq_released (acquisitions (acquire_resume n s) ! k) = acq_released (acquisitions s ! k)
   \<and> acq_nextTailSettled (acquisitions (acquire_resume n s) ! k) = acq_nextTailSettled (acquisitions s ! k)
   \<and> acq_phase (acquisitions (acquire_resume n s) ! k)
       = (if k = n then Returned else acq_phase (acquisitions s ! k))"
  by (simp_all add: acquire_resume_def nth_list_update)

lemma settleNextTail_fields:
  "length (acquisitions (settleNextTail n s)) = length (acquisitions s)"
  "queueTail (settleNextTail n s) = queueTail s"
  "conversationLockQueues (settleNextTail n s) = conversationLockQueues s"
  "k < length (acquisitions s) \<Longrightarrow>
     acq_conversationId (acquisitions (settleNextTail n s) ! k) = acq_conversationId (acquisitions s ! k)
   \<and> acq_queue (acquisitions (settleNextTail n s) ! k) = acq_queue (acquisitions s ! k)
   \<and> acq_previousTail (acquisitions (settleNextTail n s) ! k) = acq_previousTail (acquisitions s ! k)
   \<and> acq_released (acquisitions (settleNextTail n s) ! k) = acq_released (acquisitions s ! k)
   \<and> acq_phase (acquisitions (settleNextTail n s) ! k) = acq_phase (acquisitions s ! k)
   \<and> acq_nextTailSettled (acquisitions (settleNextTail n s) ! k)
       = (k = n \<or> acq_nextTailSettled (acquisitions s ! k))"
  by (cases "k = n"; simp add: settleNextTail_def)+

lemma release_fields:
  "length (acquisitions (release n s)) = length (acquisitions s)"
  "queueTail (release n s) = queueTail s"
  "k < length (acquisitions s) \<Longrightarrow> n < length (acquisitions s) \<Longrightarrow>
     acq_conversationId (acquisitions (release n s) ! k) = acq_conversationId (acquisitions s ! k)
   \<and> acq_queue (acquisitions (release n s) ! k) = acq_queue (acquisitions s ! k)
   \<and> acq_previousTail (acquisitions (release n s) ! k) = acq_previousTail (acquisitions s ! k)
   \<and> acq_phase (acquisitions (release n s) ! k) = acq_phase (acquisitions s ! k)
   \<and> acq_nextTailSettled (acquisitions (release n s) ! k) = acq_nextTailSettled (acquisitions s ! k)
   \<and> acq_released (acquisitions (release n s) ! k)
       = (k = n \<or> acq_released (acquisitions s ! k))"
  by (cases "k = n"; simp add: release_def Let_def)+

lemma release_map:
  "conversationLockQueues (release n s) c =
     (if \<not> acq_released (acquisitions s ! n)
         \<and> conversationLockQueues s (acq_conversationId (acquisitions s ! n))
             = Some (acq_queue (acquisitions s ! n))
         \<and> queueTail s ! acq_queue (acquisitions s ! n) = NextTail n
         \<and> c = acq_conversationId (acquisitions s ! n)
      then None else conversationLockQueues s c)"
  by (auto simp: release_def Let_def)

lemma acquire_enter_fields:
  "length (acquisitions (acquire_enter c s)) = Suc (length (acquisitions s))"
  "k < length (acquisitions s) \<Longrightarrow> acquisitions (acquire_enter c s) ! k = acquisitions s ! k"
  "acq_conversationId (acquisitions (acquire_enter c s) ! length (acquisitions s)) = c"
  "acq_phase (acquisitions (acquire_enter c s) ! length (acquisitions s)) = Awaiting"
  "acq_released (acquisitions (acquire_enter c s) ! length (acquisitions s)) = False"
  "acq_nextTailSettled (acquisitions (acquire_enter c s) ! length (acquisitions s)) = False"
  "conversationLockQueues (acquire_enter c s) = (conversationLockQueues s)
     (c \<mapsto> (case conversationLockQueues s c of Some q \<Rightarrow> q | None \<Rightarrow> length (queueTail s)))"
  by (simp_all add: acquire_enter_def Let_def nth_append)

lemma acquire_enter_present:
  assumes "conversationLockQueues s c = Some q" and "q < length (queueTail s)"
  shows "acq_queue (acquisitions (acquire_enter c s) ! length (acquisitions s)) = q"
    and "acq_previousTail (acquisitions (acquire_enter c s) ! length (acquisitions s)) = queueTail s ! q"
    and "queueTail (acquire_enter c s) = (queueTail s)[q := NextTail (length (acquisitions s))]"
  using assms by (simp_all add: acquire_enter_def Let_def)

lemma acquire_enter_absent:
  assumes "conversationLockQueues s c = None"
  shows "acq_queue (acquisitions (acquire_enter c s) ! length (acquisitions s)) = length (queueTail s)"
    and "acq_previousTail (acquisitions (acquire_enter c s) ! length (acquisitions s)) = ResolvedPromise"
    and "queueTail (acquire_enter c s) = queueTail s @ [NextTail (length (acquisitions s))]"
  using assms by (simp_all add: acquire_enter_def Let_def nth_append)

lemma earlierReleased_mono:
  assumes "earlierReleased s m" and "m < length (acquisitions s)"
    and "\<And>k. k \<le> m \<Longrightarrow>
           acq_conversationId (acquisitions s1 ! k) = acq_conversationId (acquisitions s ! k)
         \<and> (acq_released (acquisitions s ! k) \<longrightarrow> acq_released (acquisitions s1 ! k))"
  shows "earlierReleased s1 m"
  using assms unfolding earlierReleased_def by (metis less_or_eq_imp_le)

lemma promiseSettled_mono:
  assumes "promiseSettled s t" and "length (acquisitions s) \<le> length (acquisitions s1)"
    and "\<And>k. k < length (acquisitions s) \<Longrightarrow> acq_nextTailSettled (acquisitions s ! k)
            \<Longrightarrow> acq_nextTailSettled (acquisitions s1 ! k)"
  shows "promiseSettled s1 t"
  using assms unfolding promiseSettled_def by (cases t) auto

text \<open>Each part of the invariant depends on a few fields only.\<close>

lemma inv_map_frame:
  assumes "inv_map s" and "length (acquisitions s1) = length (acquisitions s)"
    and "queueTail s1 = queueTail s"
    and "\<And>c q. conversationLockQueues s1 c = Some q \<Longrightarrow> conversationLockQueues s c = Some q"
    and "\<And>k. k < length (acquisitions s) \<Longrightarrow>
           acq_conversationId (acquisitions s1 ! k) = acq_conversationId (acquisitions s ! k)
         \<and> acq_queue (acquisitions s1 ! k) = acq_queue (acquisitions s ! k)"
  shows "inv_map s1"
  unfolding inv_map_def
proof (intro allI impI)
  fix c q assume "conversationLockQueues s1 c = Some q"
  then have "conversationLockQueues s c = Some q" by (rule assms(4))
  with assms(1) obtain j where q: "q < length (queueTail s)" and j: "j < length (acquisitions s)"
    and t: "queueTail s ! q = NextTail j" and c: "acq_conversationId (acquisitions s ! j) = c"
    and qj: "acq_queue (acquisitions s ! j) = q"
    and later: "\<forall>n. j < n \<and> n < length (acquisitions s)
                   \<longrightarrow> acq_conversationId (acquisitions s ! n) \<noteq> c"
    unfolding inv_map_def by blast
  have "j < length (acquisitions s1) \<and> queueTail s1 ! q = NextTail j
        \<and> acq_conversationId (acquisitions s1 ! j) = c
        \<and> acq_queue (acquisitions s1 ! j) = q
        \<and> (\<forall>n. j < n \<and> n < length (acquisitions s1)
               \<longrightarrow> acq_conversationId (acquisitions s1 ! n) \<noteq> c)"
    using j t c qj later assms(2,3,5) by simp
  then show "q < length (queueTail s1)
        \<and> (\<exists>j < length (acquisitions s1). queueTail s1 ! q = NextTail j
              \<and> acq_conversationId (acquisitions s1 ! j) = c
              \<and> acq_queue (acquisitions s1 ! j) = q
              \<and> (\<forall>n. j < n \<and> n < length (acquisitions s1)
                     \<longrightarrow> acq_conversationId (acquisitions s1 ! n) \<noteq> c))"
    using q assms(3) by auto
qed

lemma inv_none_frame:
  assumes "inv_none s" and "length (acquisitions s1) = length (acquisitions s)"
    and "\<And>c. conversationLockQueues s1 c = None \<Longrightarrow> conversationLockQueues s c = None"
    and "\<And>k. k < length (acquisitions s) \<Longrightarrow>
           acq_conversationId (acquisitions s1 ! k) = acq_conversationId (acquisitions s ! k)
         \<and> (acq_released (acquisitions s ! k) \<longrightarrow> acq_released (acquisitions s1 ! k))"
  shows "inv_none s1"
  unfolding inv_none_def
proof (intro allI impI)
  fix c n assume "conversationLockQueues s1 c = None" and "n < length (acquisitions s1)"
    and "acq_conversationId (acquisitions s1 ! n) = c"
  then have "conversationLockQueues s c = None" and n: "n < length (acquisitions s)"
    and "acq_conversationId (acquisitions s ! n) = c"
    using assms(2,3,4) by auto
  then have "acq_released (acquisitions s ! n)" using assms(1) by (simp add: inv_none_def)
  then show "acq_released (acquisitions s1 ! n)" using assms(4)[OF n] by simp
qed

lemma inv_prev_frame:
  assumes "inv_prev s" and "length (acquisitions s1) = length (acquisitions s)"
    and f: "\<And>k. k < length (acquisitions s) \<Longrightarrow>
           acq_conversationId (acquisitions s1 ! k) = acq_conversationId (acquisitions s ! k)
         \<and> acq_previousTail (acquisitions s1 ! k) = acq_previousTail (acquisitions s ! k)
         \<and> (acq_released (acquisitions s ! k) \<longrightarrow> acq_released (acquisitions s1 ! k))"
  shows "inv_prev s1"
  unfolding inv_prev_def
proof (intro allI impI)
  fix m assume "m < length (acquisitions s1)"
  then have m: "m < length (acquisitions s)" using assms(2) by simp
  have old: "case acq_previousTail (acquisitions s ! m) of
          ResolvedPromise \<Rightarrow> earlierReleased s m
        | NextTail j \<Rightarrow>
            j < m \<and> acq_conversationId (acquisitions s ! j) = acq_conversationId (acquisitions s ! m)
            \<and> (\<forall>n. j < n \<and> n < m \<longrightarrow>
                  acq_conversationId (acquisitions s ! n) \<noteq> acq_conversationId (acquisitions s ! m))"
    using assms(1) m by (simp add: inv_prev_def)
  show "case acq_previousTail (acquisitions s1 ! m) of
          ResolvedPromise \<Rightarrow> earlierReleased s1 m
        | NextTail j \<Rightarrow>
            j < m \<and> acq_conversationId (acquisitions s1 ! j) = acq_conversationId (acquisitions s1 ! m)
            \<and> (\<forall>n. j < n \<and> n < m \<longrightarrow>
                  acq_conversationId (acquisitions s1 ! n) \<noteq> acq_conversationId (acquisitions s1 ! m))"
  proof (cases "acq_previousTail (acquisitions s ! m)")
    case ResolvedPromise
    then have "earlierReleased s m" using old by simp
    then have "earlierReleased s1 m" using m f by (intro earlierReleased_mono[of s m s1]) auto
    then show ?thesis using ResolvedPromise f[OF m] by simp
  next
    case (NextTail j)
    then show ?thesis using old f[OF m] f m by auto
  qed
qed

lemma inv_settled_frame:
  assumes "inv_settled s" and "length (acquisitions s1) = length (acquisitions s)"
    and f: "\<And>k. k < length (acquisitions s) \<Longrightarrow>
           acq_conversationId (acquisitions s1 ! k) = acq_conversationId (acquisitions s ! k)
         \<and> (acq_released (acquisitions s ! k) \<longrightarrow> acq_released (acquisitions s1 ! k))
         \<and> (acq_nextTailSettled (acquisitions s1 ! k) \<longrightarrow> acq_nextTailSettled (acquisitions s ! k))"
  shows "inv_settled s1"
  unfolding inv_settled_def
proof (intro allI impI)
  fix j assume "j < length (acquisitions s1)" and sj: "acq_nextTailSettled (acquisitions s1 ! j)"
  then have j: "j < length (acquisitions s)" using assms(2) by simp
  then have "acq_nextTailSettled (acquisitions s ! j)" using sj f by blast
  with assms(1) j have r: "acq_released (acquisitions s ! j)" and e: "earlierReleased s j"
    by (auto simp: inv_settled_def)
  have "earlierReleased s1 j" using e j f by (intro earlierReleased_mono[of s j s1]) auto
  then show "acq_released (acquisitions s1 ! j) \<and> earlierReleased s1 j" using r f[OF j] by simp
qed

lemma inv_returned_frame:
  assumes "inv_returned s" and "length (acquisitions s1) = length (acquisitions s)"
    and f: "\<And>k. k < length (acquisitions s) \<Longrightarrow>
           acq_conversationId (acquisitions s1 ! k) = acq_conversationId (acquisitions s ! k)
         \<and> acq_previousTail (acquisitions s1 ! k) = acq_previousTail (acquisitions s ! k)
         \<and> (acq_released (acquisitions s ! k) \<longrightarrow> acq_released (acquisitions s1 ! k))
         \<and> (acq_nextTailSettled (acquisitions s ! k) \<longrightarrow> acq_nextTailSettled (acquisitions s1 ! k))
         \<and> (acq_phase (acquisitions s1 ! k) = Returned \<longrightarrow> acq_phase (acquisitions s ! k) = Returned)"
  shows "inv_returned s1"
  unfolding inv_returned_def
proof (intro allI impI)
  fix m assume "m < length (acquisitions s1)" and rm: "acq_phase (acquisitions s1 ! m) = Returned"
  then have m: "m < length (acquisitions s)" using assms(2) by simp
  then have "acq_phase (acquisitions s ! m) = Returned" using rm f by blast
  with assms(1) m have p: "promiseSettled s (acq_previousTail (acquisitions s ! m))"
    and e: "earlierReleased s m"
    by (auto simp: inv_returned_def)
  have "earlierReleased s1 m" using e m f by (intro earlierReleased_mono[of s m s1]) auto
  moreover have "promiseSettled s1 (acq_previousTail (acquisitions s ! m))"
    using p assms(2) f by (intro promiseSettled_mono[of s _ s1]) auto
  ultimately show "promiseSettled s1 (acq_previousTail (acquisitions s1 ! m)) \<and> earlierReleased s1 m"
    using f[OF m] by simp
qed

lemma inv_released_frame:
  assumes "inv_released s" and "length (acquisitions s1) = length (acquisitions s)"
    and "\<And>k. k < length (acquisitions s) \<Longrightarrow>
           (acq_released (acquisitions s1 ! k) \<longrightarrow> acq_released (acquisitions s ! k))
         \<and> (acq_phase (acquisitions s ! k) = Returned \<longrightarrow> acq_phase (acquisitions s1 ! k) = Returned)"
  shows "inv_released s1"
  unfolding inv_released_def
proof (intro allI impI)
  fix n assume "n < length (acquisitions s1)" and r: "acq_released (acquisitions s1 ! n)"
  then have n: "n < length (acquisitions s)" using assms(2) by simp
  then have "acq_released (acquisitions s ! n)" using r assms(3) by blast
  then have "acq_phase (acquisitions s ! n) = Returned" using assms(1) n by (simp add: inv_released_def)
  then show "acq_phase (acquisitions s1 ! n) = Returned" using assms(3)[OF n] by simp
qed

lemma lockInvariant_resume:
  assumes inv: "lockInvariant s" and n: "n < length (acquisitions s)"
    and st: "promiseSettled s (acq_previousTail (acquisitions s ! n))"
  shows "lockInvariant (acquire_resume n s)"
proof -
  let ?s = "acquire_resume n s"
  note F = acquire_resume_fields[where n=n and s=s]
  from inv have i_map: "inv_map s" and i_none: "inv_none s" and i_prev: "inv_prev s"
    and i_set: "inv_settled s" and i_ret: "inv_returned s" and i_rel: "inv_released s"
    by (simp_all add: lockInvariant_def)
  have en: "earlierReleased s n" using i_prev i_set n st by (rule settled_previous_earlierReleased)
  have "inv_map ?s" using i_map by (rule inv_map_frame) (simp_all add: F)
  moreover have "inv_none ?s" using i_none by (rule inv_none_frame) (simp_all add: F)
  moreover have "inv_prev ?s" using i_prev by (rule inv_prev_frame) (simp_all add: F)
  moreover have "inv_settled ?s" using i_set by (rule inv_settled_frame) (simp_all add: F)
  moreover have "inv_released ?s" using i_rel by (rule inv_released_frame) (simp_all add: F)
  moreover have "inv_returned ?s"
    unfolding inv_returned_def
  proof (intro allI impI)
    fix m assume "m < length (acquisitions ?s)" and rm: "acq_phase (acquisitions ?s ! m) = Returned"
    then have m: "m < length (acquisitions s)" by (simp add: F)
    have "promiseSettled s (acq_previousTail (acquisitions s ! m)) \<and> earlierReleased s m"
    proof (cases "m = n")
      case True
      then show ?thesis using st en by simp
    next
      case False
      then have "acq_phase (acquisitions s ! m) = Returned" using rm m by (simp add: F)
      then show ?thesis using i_ret m by (simp add: inv_returned_def)
    qed
    then have p: "promiseSettled s (acq_previousTail (acquisitions s ! m))"
      and e: "earlierReleased s m" by simp_all
    have "earlierReleased ?s m" using e m by (rule earlierReleased_mono) (use m in \<open>simp add: F\<close>)
    moreover have "promiseSettled ?s (acq_previousTail (acquisitions s ! m))"
      using p by (rule promiseSettled_mono) (simp_all add: F)
    ultimately show "promiseSettled ?s (acq_previousTail (acquisitions ?s ! m)) \<and> earlierReleased ?s m"
      using m by (simp add: F)
  qed
  ultimately show ?thesis by (simp add: lockInvariant_def)
qed

lemma lockInvariant_settle:
  assumes inv: "lockInvariant s" and n: "n < length (acquisitions s)"
    and rel: "acq_released (acquisitions s ! n)"
    and st: "promiseSettled s (acq_previousTail (acquisitions s ! n))"
  shows "lockInvariant (settleNextTail n s)"
proof -
  let ?s = "settleNextTail n s"
  note F = settleNextTail_fields[where n=n and s=s]
  from inv have i_map: "inv_map s" and i_none: "inv_none s" and i_prev: "inv_prev s"
    and i_set: "inv_settled s" and i_ret: "inv_returned s" and i_rel: "inv_released s"
    by (simp_all add: lockInvariant_def)
  have en: "earlierReleased s n" using i_prev i_set n st by (rule settled_previous_earlierReleased)
  have "inv_map ?s" using i_map by (rule inv_map_frame) (simp_all add: F)
  moreover have "inv_none ?s" using i_none by (rule inv_none_frame) (simp_all add: F)
  moreover have "inv_prev ?s" using i_prev by (rule inv_prev_frame) (simp_all add: F)
  moreover have "inv_returned ?s" using i_ret by (rule inv_returned_frame) (simp_all add: F)
  moreover have "inv_released ?s" using i_rel by (rule inv_released_frame) (simp_all add: F)
  moreover have "inv_settled ?s"
    unfolding inv_settled_def
  proof (intro allI impI)
    fix j assume "j < length (acquisitions ?s)" and sj: "acq_nextTailSettled (acquisitions ?s ! j)"
    then have j: "j < length (acquisitions s)" by (simp add: F)
    have "acq_released (acquisitions s ! j) \<and> earlierReleased s j"
    proof (cases "j = n")
      case True
      then show ?thesis using rel en by simp
    next
      case False
      then have "acq_nextTailSettled (acquisitions s ! j)" using sj j by (simp add: F)
      then show ?thesis using i_set j by (simp add: inv_settled_def)
    qed
    then have r: "acq_released (acquisitions s ! j)" and e: "earlierReleased s j" by simp_all
    have "earlierReleased ?s j" using e j by (rule earlierReleased_mono) (use j in \<open>simp add: F\<close>)
    then show "acq_released (acquisitions ?s ! j) \<and> earlierReleased ?s j" using r j by (simp add: F)
  qed
  ultimately show ?thesis by (simp add: lockInvariant_def)
qed

lemma lockInvariant_release:
  assumes inv: "lockInvariant s" and n: "n < length (acquisitions s)"
    and ph: "acq_phase (acquisitions s ! n) = Returned"
  shows "lockInvariant (release n s)"
proof -
  let ?s = "release n s"
  note F = release_fields[where n=n and s=s]
  from inv have i_map: "inv_map s" and i_none: "inv_none s" and i_prev: "inv_prev s"
    and i_set: "inv_settled s" and i_ret: "inv_returned s" and i_rel: "inv_released s"
    by (simp_all add: lockInvariant_def)
  have en: "earlierReleased s n" using i_ret n ph by (simp add: inv_returned_def)
  have "inv_map ?s" using i_map
    by (rule inv_map_frame) (simp_all add: F n release_map split: if_splits)
  moreover have "inv_prev ?s" using i_prev by (rule inv_prev_frame) (simp_all add: F n)
  moreover have "inv_settled ?s" using i_set by (rule inv_settled_frame) (simp_all add: F n)
  moreover have "inv_returned ?s" using i_ret by (rule inv_returned_frame) (simp_all add: F n)
  moreover have "inv_released ?s"
    unfolding inv_released_def
  proof (intro allI impI)
    fix k assume "k < length (acquisitions ?s)" and r: "acq_released (acquisitions ?s ! k)"
    then have k: "k < length (acquisitions s)" by (simp add: F)
    have "acq_phase (acquisitions s ! k) = Returned"
    proof (cases "k = n")
      case True
      then show ?thesis using ph by simp
    next
      case False
      then have "acq_released (acquisitions s ! k)" using r k n by (simp add: F)
      then show ?thesis using i_rel k by (simp add: inv_released_def)
    qed
    then show "acq_phase (acquisitions ?s ! k) = Returned" using k n by (simp add: F)
  qed
  moreover have "inv_none ?s"
    unfolding inv_none_def
  proof (intro allI impI)
    fix c k assume none: "conversationLockQueues ?s c = None" and "k < length (acquisitions ?s)"
      and ck: "acq_conversationId (acquisitions ?s ! k) = c"
    then have k: "k < length (acquisitions s)" by (simp add: F)
    have ck': "acq_conversationId (acquisitions s ! k) = c" using ck k n by (simp add: F)
    have "k = n \<or> acq_released (acquisitions s ! k)"
    proof (cases "conversationLockQueues s c")
      case None
      then show ?thesis using i_none k ck' by (simp add: inv_none_def)
    next
      case (Some q)
      with none have del: "conversationLockQueues s (acq_conversationId (acquisitions s ! n))
             = Some (acq_queue (acquisitions s ! n))"
        and tl: "queueTail s ! acq_queue (acquisitions s ! n) = NextTail n"
        and c: "c = acq_conversationId (acquisitions s ! n)"
        by (auto simp: release_map split: if_splits)
      from i_map del obtain j where "queueTail s ! acq_queue (acquisitions s ! n) = NextTail j"
        and later: "\<forall>i. j < i \<and> i < length (acquisitions s) \<longrightarrow>
             acq_conversationId (acquisitions s ! i) \<noteq> acq_conversationId (acquisitions s ! n)"
        unfolding inv_map_def by blast
      with tl have "j = n" by simp
      with later k ck' c have "\<not> n < k" by auto
      then consider "k = n" | "k < n" by linarith
      then show ?thesis
      proof cases
        case 1
        then show ?thesis by simp
      next
        case 2
        then show ?thesis using en ck' c by (simp add: earlierReleased_def)
      qed
    qed
    then show "acq_released (acquisitions ?s ! k)" using k n by (simp add: F)
  qed
  ultimately show ?thesis by (simp add: lockInvariant_def)
qed

lemma lockInvariant_acquire:
  assumes inv: "lockInvariant s"
  shows "lockInvariant (acquire_enter c s)"
proof -
  let ?s = "acquire_enter c s"
  let ?L = "length (acquisitions s)"
  note F = acquire_enter_fields[where c=c and s=s]
  from inv have i_map: "inv_map s" and i_none: "inv_none s" and i_prev: "inv_prev s"
    and i_set: "inv_settled s" and i_ret: "inv_returned s" and i_rel: "inv_released s"
    by (simp_all add: lockInvariant_def)
  have old: "acquisitions ?s ! k = acquisitions s ! k" if "k < ?L" for k
    using that by (rule F(2))
  have er: "earlierReleased ?s m" if "earlierReleased s m" and "m < ?L" for m
    using that by (rule earlierReleased_mono) (use that in \<open>simp add: old\<close>)
  have ps: "promiseSettled ?s t" if "promiseSettled s t" for t
    using that by (rule promiseSettled_mono) (simp_all add: F(1) old)
  have "inv_released ?s"
    unfolding inv_released_def
  proof (intro allI impI)
    fix n assume "n < length (acquisitions ?s)" and r: "acq_released (acquisitions ?s ! n)"
    then have "n < ?L \<or> n = ?L" by (auto simp: F(1))
    then have n: "n < ?L" using r by (auto simp: F)
    then show "acq_phase (acquisitions ?s ! n) = Returned"
      using r i_rel by (simp add: old inv_released_def)
  qed
  moreover have "inv_returned ?s"
    unfolding inv_returned_def
  proof (intro allI impI)
    fix m assume "m < length (acquisitions ?s)" and r: "acq_phase (acquisitions ?s ! m) = Returned"
    then have "m < ?L \<or> m = ?L" by (auto simp: F(1))
    then have m: "m < ?L" using r by (auto simp: F)
    then have "promiseSettled s (acq_previousTail (acquisitions s ! m)) \<and> earlierReleased s m"
      using r i_ret by (simp add: old inv_returned_def)
    then show "promiseSettled ?s (acq_previousTail (acquisitions ?s ! m)) \<and> earlierReleased ?s m"
      using m ps er by (simp add: old)
  qed
  moreover have "inv_settled ?s"
    unfolding inv_settled_def
  proof (intro allI impI)
    fix j assume "j < length (acquisitions ?s)" and r: "acq_nextTailSettled (acquisitions ?s ! j)"
    then have "j < ?L \<or> j = ?L" by (auto simp: F(1))
    then have j: "j < ?L" using r by (auto simp: F)
    then have "acq_released (acquisitions s ! j) \<and> earlierReleased s j"
      using r i_set by (simp add: old inv_settled_def)
    then show "acq_released (acquisitions ?s ! j) \<and> earlierReleased ?s j"
      using j er by (simp add: old)
  qed
  moreover have "inv_none ?s"
    unfolding inv_none_def
  proof (intro allI impI)
    fix c1 n assume none: "conversationLockQueues ?s c1 = None"
      and "n < length (acquisitions ?s)" and cn: "acq_conversationId (acquisitions ?s ! n) = c1"
    then have nn: "n < ?L \<or> n = ?L" by (auto simp: F(1))
    from none have c1: "c1 \<noteq> c" and none0: "conversationLockQueues s c1 = None"
      by (auto simp: F(7) split: if_splits)
    from nn cn c1 have n: "n < ?L" by (auto simp: F)
    then show "acq_released (acquisitions ?s ! n)"
      using cn none0 i_none by (simp add: old inv_none_def)
  qed
  moreover have "inv_prev ?s"
    unfolding inv_prev_def
  proof (intro allI impI)
    fix m assume "m < length (acquisitions ?s)"
    then have "m < ?L \<or> m = ?L" by (auto simp: F(1))
    then consider "m < ?L" | "m = ?L" by blast
    then show "case acq_previousTail (acquisitions ?s ! m) of
          ResolvedPromise \<Rightarrow> earlierReleased ?s m
        | NextTail j \<Rightarrow>
            j < m \<and> acq_conversationId (acquisitions ?s ! j) = acq_conversationId (acquisitions ?s ! m)
            \<and> (\<forall>n. j < n \<and> n < m \<longrightarrow>
                  acq_conversationId (acquisitions ?s ! n) \<noteq> acq_conversationId (acquisitions ?s ! m))"
    proof cases
      case 1
      have p: "case acq_previousTail (acquisitions s ! m) of
          ResolvedPromise \<Rightarrow> earlierReleased s m
        | NextTail j \<Rightarrow>
            j < m \<and> acq_conversationId (acquisitions s ! j) = acq_conversationId (acquisitions s ! m)
            \<and> (\<forall>n. j < n \<and> n < m \<longrightarrow>
                  acq_conversationId (acquisitions s ! n) \<noteq> acq_conversationId (acquisitions s ! m))"
        using i_prev 1 by (simp add: inv_prev_def)
      show ?thesis
      proof (cases "acq_previousTail (acquisitions s ! m)")
        case ResolvedPromise
        then show ?thesis using p er[of m] 1 by (simp add: old)
      next
        case (NextTail j)
        then show ?thesis using p 1 by (auto simp: old)
      qed
    next
      case 2
      show ?thesis
      proof (cases "conversationLockQueues s c")
        case None
        have "earlierReleased ?s ?L"
          unfolding earlierReleased_def using None i_none by (simp add: old F inv_none_def)
        then show ?thesis using 2 acquire_enter_absent(2)[OF None] by simp
      next
        case (Some q)
        with i_map obtain j where q: "q < length (queueTail s)" and j: "j < ?L"
          and t: "queueTail s ! q = NextTail j" and cj: "acq_conversationId (acquisitions s ! j) = c"
          and later: "\<forall>n. j < n \<and> n < ?L \<longrightarrow> acq_conversationId (acquisitions s ! n) \<noteq> c"
          unfolding inv_map_def by blast
        have "acq_previousTail (acquisitions ?s ! ?L) = NextTail j"
          using acquire_enter_present(2)[OF Some q] t by simp
        then show ?thesis using 2 j cj later by (simp add: old F)
      qed
    qed
  qed
  moreover have "inv_map ?s"
    unfolding inv_map_def
  proof (intro allI impI)
    fix c1 q1 assume m1: "conversationLockQueues ?s c1 = Some q1"
    let ?goal = "\<lambda>j. j < length (acquisitions ?s) \<and> queueTail ?s ! q1 = NextTail j
              \<and> acq_conversationId (acquisitions ?s ! j) = c1
              \<and> acq_queue (acquisitions ?s ! j) = q1
              \<and> (\<forall>n. j < n \<and> n < length (acquisitions ?s)
                     \<longrightarrow> acq_conversationId (acquisitions ?s ! n) \<noteq> c1)"
    have "q1 < length (queueTail ?s) \<and> (\<exists>j. ?goal j)"
    proof (cases "c1 = c")
      case True
      show ?thesis
      proof (cases "conversationLockQueues s c")
        case None
        then have q1: "q1 = length (queueTail s)" using m1 True by (simp add: F(7))
        have "?goal ?L"
          using acquire_enter_absent[OF None] q1 True by (auto simp: F)
        moreover have "q1 < length (queueTail ?s)"
          using acquire_enter_absent(3)[OF None] q1 by simp
        ultimately show ?thesis by blast
      next
        case (Some q)
        then have q1: "q1 = q" using m1 True by (simp add: F(7))
        from Some i_map have q: "q < length (queueTail s)" unfolding inv_map_def by blast
        have "?goal ?L"
          using acquire_enter_present[OF Some q] q1 q True by (auto simp: F)
        moreover have "q1 < length (queueTail ?s)"
          using acquire_enter_present(3)[OF Some q] q1 q by simp
        ultimately show ?thesis by blast
      qed
    next
      case False
      then have m0: "conversationLockQueues s c1 = Some q1" using m1 by (simp add: F(7))
      with i_map obtain j where q: "q1 < length (queueTail s)" and j: "j < ?L"
        and t: "queueTail s ! q1 = NextTail j" and cj: "acq_conversationId (acquisitions s ! j) = c1"
        and qj: "acq_queue (acquisitions s ! j) = q1"
        and later: "\<forall>n. j < n \<and> n < ?L \<longrightarrow> acq_conversationId (acquisitions s ! n) \<noteq> c1"
        unfolding inv_map_def by blast
      have tails: "queueTail ?s ! q1 = queueTail s ! q1 \<and> q1 < length (queueTail ?s)"
      proof (cases "conversationLockQueues s c")
        case None
        then show ?thesis using acquire_enter_absent(3)[OF None] q by (simp add: nth_append)
      next
        case (Some q0)
        with i_map obtain j0 where q0: "q0 < length (queueTail s)"
          and t0: "queueTail s ! q0 = NextTail j0"
          and c0: "acq_conversationId (acquisitions s ! j0) = c"
          unfolding inv_map_def by blast
        have "q0 \<noteq> q1" using t t0 c0 cj False by auto
        then show ?thesis using acquire_enter_present(3)[OF Some q0] q by simp
      qed
      have "\<forall>n. j < n \<and> n < Suc ?L \<longrightarrow> acq_conversationId (acquisitions ?s ! n) \<noteq> c1"
      proof (intro allI impI)
        fix n assume "j < n \<and> n < Suc ?L"
        then consider "j < n \<and> n < ?L" | "n = ?L" by linarith
        then show "acq_conversationId (acquisitions ?s ! n) \<noteq> c1"
        proof cases
          case 1
          then show ?thesis using later by (simp add: old)
        next
          case 2
          then show ?thesis using False by (simp add: F)
        qed
      qed
      then have "?goal j" using j t cj qj tails by (simp add: old F(1))
      then show ?thesis using tails by blast
    qed
    then show "q1 < length (queueTail ?s) \<and> (\<exists>j < length (acquisitions ?s).
               queueTail ?s ! q1 = NextTail j
              \<and> acq_conversationId (acquisitions ?s ! j) = c1
              \<and> acq_queue (acquisitions ?s ! j) = q1
              \<and> (\<forall>n. j < n \<and> n < length (acquisitions ?s)
                     \<longrightarrow> acq_conversationId (acquisitions ?s ! n) \<noteq> c1))"
      by blast
  qed
  ultimately show ?thesis by (simp add: lockInvariant_def)
qed

lemma lockInvariant_exec:
  assumes "lockInvariant s" and "exec e s = Some s1"
  shows "lockInvariant s1"
proof (cases e)
  case (Acquire c)
  then show ?thesis using assms lockInvariant_acquire by auto
next
  case (Resume n)
  then show ?thesis using assms lockInvariant_resume by (auto split: if_splits)
next
  case (SettleTail n)
  then show ?thesis using assms lockInvariant_settle by (auto split: if_splits)
next
  case (Release n out)
  then show ?thesis using assms lockInvariant_release by (auto split: if_splits)
qed

lemma reachable_lockInvariant: "reachable s \<Longrightarrow> lockInvariant s"
  by (induction rule: reachable.induct) (auto intro: lockInvariant_initial lockInvariant_exec)

lemma run_reachable: "reachable s \<Longrightarrow> run es s = Some s1 \<Longrightarrow> reachable s1"
proof (induction es arbitrary: s)
  case Nil
  then show ?case by simp
next
  case (Cons e es)
  then show ?case by (auto split: option.splits intro: reachable_exec)
qed

lemma release_idempotent:
  assumes "n < length (acquisitions s)"
  shows "release n (release n s) = release n s"
proof -
  have "acq_released (acquisitions (release n s) ! n)"
    using assms release_fields(3)[of n s n] by simp
  then show ?thesis by (simp add: release_def[of n "release n s"] Let_def)
qed

lemma waiter_granted:
  assumes inv: "lockInvariant s" and m: "m < length (acquisitions s)"
    and ph: "acq_phase (acquisitions s ! m) = Awaiting" and er: "earlierReleased s m"
  shows "\<exists>es s1. list_all promiseJob es \<and> run es s = Some s1
           \<and> acq_phase (acquisitions s1 ! m) = Returned"
proof (cases "acq_previousTail (acquisitions s ! m)")
  case ResolvedPromise
  then have "exec (Resume m) s = Some (acquire_resume m s)"
    using m ph by (simp add: promiseSettled_def)
  then have "run [Resume m] s = Some (acquire_resume m s)" by simp
  moreover have "acq_phase (acquisitions (acquire_resume m s) ! m) = Returned"
    using m by (simp add: acquire_resume_fields)
  moreover have "list_all promiseJob [Resume m]" by simp
  ultimately show ?thesis by blast
next
  case (NextTail j)
  from inv have i_prev: "inv_prev s" and i_ret: "inv_returned s" and i_rel: "inv_released s"
    by (simp_all add: lockInvariant_def)
  from i_prev m NextTail have j: "j < m"
    and cj: "acq_conversationId (acquisitions s ! j) = acq_conversationId (acquisitions s ! m)"
    by (auto simp: inv_prev_def)
  then have rj: "acq_released (acquisitions s ! j)" using er by (simp add: earlierReleased_def)
  have jl: "j < length (acquisitions s)" using j m by simp
  then have "acq_phase (acquisitions s ! j) = Returned" using rj i_rel by (simp add: inv_released_def)
  then have pj: "promiseSettled s (acq_previousTail (acquisitions s ! j))"
    using i_ret jl by (simp add: inv_returned_def)
  let ?s1 = "settleNextTail j s"
  note F = settleNextTail_fields[where n=j and s=s]
  have e1: "exec (SettleTail j) s = Some ?s1" using jl rj pj by simp
  have "promiseSettled ?s1 (acq_previousTail (acquisitions ?s1 ! m))"
    using m jl NextTail by (simp add: F promiseSettled_def)
  moreover have "acq_phase (acquisitions ?s1 ! m) = Awaiting" using m ph by (simp add: F)
  ultimately have e2: "exec (Resume m) ?s1 = Some (acquire_resume m ?s1)"
    using m by (simp add: F)
  have "run [SettleTail j, Resume m] s = Some (acquire_resume m ?s1)" using e1 e2 by simp
  moreover have "acq_phase (acquisitions (acquire_resume m ?s1) ! m) = Returned"
    using m by (simp add: acquire_resume_fields F)
  moreover have "list_all promiseJob [SettleTail j, Resume m]" by simp
  ultimately show ?thesis by blast
qed

text \<open>
  Claim C3. In every state that the lock reaches: of the acquirers of one conversation id
  at most one is in its critical section, that is, has been handed its release function
  and has not called it; an acquirer is handed the release function only when all earlier
  acquirers of the same id have been handed theirs and have called it, which is the order
  of acquisition; calling a release function a second time changes nothing; the outcome of
  a holder's critical section does not enter the release; and a waiter whose predecessors
  have all released, whatever their outcome, is handed the lock by the promise machinery
  alone.
\<close>

theorem C3_conversation_lock:
  assumes "reachable s"
  shows "(\<forall>n m. n < length (acquisitions s) \<and> m < length (acquisitions s)
            \<and> acq_conversationId (acquisitions s ! n) = acq_conversationId (acquisitions s ! m)
            \<and> inCriticalSection s n \<and> inCriticalSection s m \<longrightarrow> n = m)
       \<and> (\<forall>n m. n < m \<and> m < length (acquisitions s)
            \<and> acq_conversationId (acquisitions s ! n) = acq_conversationId (acquisitions s ! m)
            \<and> acq_phase (acquisitions s ! m) = Returned
            \<longrightarrow> acq_phase (acquisitions s ! n) = Returned \<and> acq_released (acquisitions s ! n))
       \<and> (\<forall>n. n < length (acquisitions s) \<longrightarrow> release n (release n s) = release n s)
       \<and> (\<forall>n. exec (Release n Threw) s = exec (Release n Completed) s)
       \<and> (\<forall>m. m < length (acquisitions s) \<and> acq_phase (acquisitions s ! m) = Awaiting
            \<and> earlierReleased s m
            \<longrightarrow> (\<exists>es s1. list_all promiseJob es \<and> run es s = Some s1
                    \<and> acq_phase (acquisitions s1 ! m) = Returned))"
proof -
  from assms have inv: "lockInvariant s" by (rule reachable_lockInvariant)
  then have i_ret: "inv_returned s" and i_rel: "inv_released s"
    by (simp_all add: lockInvariant_def)
  have fifo: "acq_phase (acquisitions s ! n) = Returned \<and> acq_released (acquisitions s ! n)"
    if "n < m" "m < length (acquisitions s)"
      "acq_conversationId (acquisitions s ! n) = acq_conversationId (acquisitions s ! m)"
      "acq_phase (acquisitions s ! m) = Returned" for n m
  proof -
    from i_ret that(2,4) have "earlierReleased s m" by (simp add: inv_returned_def)
    then have r: "acq_released (acquisitions s ! n)" using that(1,3) by (simp add: earlierReleased_def)
    moreover have "n < length (acquisitions s)" using that(1,2) by simp
    ultimately show ?thesis using i_rel by (simp add: inv_released_def)
  qed
  have excl: "n = m"
    if "n < length (acquisitions s)" "m < length (acquisitions s)"
      "acq_conversationId (acquisitions s ! n) = acq_conversationId (acquisitions s ! m)"
      "inCriticalSection s n" "inCriticalSection s m" for n m
  proof (rule ccontr)
    assume "n \<noteq> m"
    then consider "n < m" | "m < n" by linarith
    then show False
    proof cases
      case 1
      then show ?thesis using fifo[of n m] that by (simp add: inCriticalSection_def)
    next
      case 2
      then show ?thesis using fifo[of m n] that by (simp add: inCriticalSection_def)
    qed
  qed
  have "\<forall>n m. n < length (acquisitions s) \<and> m < length (acquisitions s)
            \<and> acq_conversationId (acquisitions s ! n) = acq_conversationId (acquisitions s ! m)
            \<and> inCriticalSection s n \<and> inCriticalSection s m \<longrightarrow> n = m"
    using excl by blast
  moreover have "\<forall>n m. n < m \<and> m < length (acquisitions s)
            \<and> acq_conversationId (acquisitions s ! n) = acq_conversationId (acquisitions s ! m)
            \<and> acq_phase (acquisitions s ! m) = Returned
            \<longrightarrow> acq_phase (acquisitions s ! n) = Returned \<and> acq_released (acquisitions s ! n)"
    using fifo by blast
  moreover have "\<forall>n. n < length (acquisitions s) \<longrightarrow> release n (release n s) = release n s"
    by (simp add: release_idempotent)
  moreover have "\<forall>n. exec (Release n Threw) s = exec (Release n Completed) s" by simp
  moreover have "\<forall>m. m < length (acquisitions s) \<and> acq_phase (acquisitions s ! m) = Awaiting
            \<and> earlierReleased s m
            \<longrightarrow> (\<exists>es s1. list_all promiseJob es \<and> run es s = Some s1
                    \<and> acq_phase (acquisitions s1 ! m) = Returned)"
    using waiter_granted[OF inv] by blast
  ultimately show ?thesis by (intro conjI)
qed

lemma lock_example_value:
  "run lock_example_events initialLockState = Some lock_example"
  "acquisitions lock_example =
     [\<lparr>acq_conversationId = ''conversation1'', acq_queue = 0, acq_previousTail = ResolvedPromise,
       acq_phase = Returned, acq_released = True, acq_nextTailSettled = False\<rparr>,
      \<lparr>acq_conversationId = ''conversation1'', acq_queue = 0, acq_previousTail = NextTail 0,
       acq_phase = Awaiting, acq_released = False, acq_nextTailSettled = False\<rparr>]"
  by (simp_all add: lock_example_def lock_example_events_def initialLockState_def
      acquire_enter_def acquire_resume_def release_def promiseSettled_def Let_def)

theorem C3_conversation_lock_witness:
  "reachable lock_example
   \<and> acq_phase (acquisitions lock_example ! 1) = Awaiting
   \<and> acq_released (acquisitions lock_example ! 0)
   \<and> (\<exists>es s1. list_all promiseJob es \<and> run es lock_example = Some s1
          \<and> acq_phase (acquisitions s1 ! 1) = Returned)
   \<and> release 0 (release 0 lock_example) = release 0 lock_example"
proof -
  have r: "reachable lock_example"
    using run_reachable[OF reachable_initial lock_example_value(1)] .
  note c3 = C3_conversation_lock[OF r]
  have a: "acq_phase (acquisitions lock_example ! 1) = Awaiting"
    and b: "acq_released (acquisitions lock_example ! 0)"
    and l: "length (acquisitions lock_example) = 2"
    by (simp_all add: lock_example_value(2))
  have e: "earlierReleased lock_example 1"
    by (simp add: earlierReleased_def lock_example_value(2))
  from c3 have "1 < length (acquisitions lock_example)
            \<and> acq_phase (acquisitions lock_example ! 1) = Awaiting
            \<and> earlierReleased lock_example 1
            \<longrightarrow> (\<exists>es s1. list_all promiseJob es \<and> run es lock_example = Some s1
                    \<and> acq_phase (acquisitions s1 ! 1) = Returned)"
    by blast
  then have p: "\<exists>es s1. list_all promiseJob es \<and> run es lock_example = Some s1
                    \<and> acq_phase (acquisitions s1 ! 1) = Returned"
    using a e l by simp
  from c3 have "0 < length (acquisitions lock_example)
     \<longrightarrow> release 0 (release 0 lock_example) = release 0 lock_example"
    by blast
  then have i: "release 0 (release 0 lock_example) = release 0 lock_example" using l by simp
  show ?thesis using r a b p i by (intro conjI)
qed

end
